theory Spec2Isabelle
  imports Main "HOL-Library.AList"
begin

section \<open>Python values used by the core module\<close>

text \<open>
  Strings are Isabelle strings; a character is read as a code point below 256. In that
  range the regular-expression class \<open>\d\<close> is exactly the ten ASCII digits, and the
  characters that \<open>int()\<close> strips as blanks are the eight listed in \<open>py_isspace\<close>.
  An exception is a value; the text it carries is what \<open>str(e)\<close> prints.
\<close>

datatype exn =
    ValueError string
  | RequestException string
  | BadZipFile string
  | OSError string
  | OtherException string

fun exn_text :: "exn \<Rightarrow> string" where
  "exn_text (ValueError t) = t"
| "exn_text (RequestException t) = t"
| "exn_text (BadZipFile t) = t"
| "exn_text (OSError t) = t"
| "exn_text (OtherException t) = t"

definition is_digit :: "char \<Rightarrow> bool" where
  "is_digit c = (c \<in> set ''0123456789'')"

definition digit_val :: "char \<Rightarrow> nat" where
  "digit_val c = of_char c - 48"

definition py_isspace :: "char \<Rightarrow> bool" where
  "py_isspace c = ((of_char c :: nat) \<in> {9, 10, 11, 12, 13, 32, 133, 160})"

text \<open>
  \<open>int(x)\<close> on a string, base 10: blanks are stripped at both ends, one sign may follow,
  then at least one digit, with single underscores allowed between digits. Anything else
  raises \<open>ValueError\<close>.
\<close>

fun py_digits :: "nat \<Rightarrow> string \<Rightarrow> nat option" where
  "py_digits acc [] = Some acc"
| "py_digits acc [c] = (if is_digit c then Some (10 * acc + digit_val c) else None)"
| "py_digits acc (c # d # cs) =
     (if is_digit c then py_digits (10 * acc + digit_val c) (d # cs)
      else if c = CHR ''_'' \<and> is_digit d then py_digits (10 * acc + digit_val d) cs
      else None)"

definition py_unsigned :: "string \<Rightarrow> nat option" where
  "py_unsigned s =
     (case s of [] \<Rightarrow> None
      | c # cs \<Rightarrow> if is_digit c then py_digits (digit_val c) cs else None)"

definition py_strip :: "string \<Rightarrow> string" where
  "py_strip s = rev (dropWhile py_isspace (rev (dropWhile py_isspace s)))"

definition py_int :: "string \<Rightarrow> exn + int" where
  "py_int x =
     (let t = py_strip x;
          r = (case t of
                 [] \<Rightarrow> None
               | c # cs \<Rightarrow>
                   if c = CHR ''+'' then map_option int (py_unsigned cs)
                   else if c = CHR ''-'' then map_option (\<lambda>n. - int n) (py_unsigned cs)
                   else map_option int (py_unsigned t))
      in case r of
           None \<Rightarrow> Inl (ValueError (''invalid literal for int() with base 10: '' @ x))
         | Some v \<Rightarrow> Inr v)"

text \<open>\<open>s.split('.')\<close>: the pieces between the dots, always at least one piece.\<close>

fun split_dot :: "string \<Rightarrow> string list" where
  "split_dot [] = [[]]"
| "split_dot (c # cs) =
     (if c = CHR ''.'' then [] # split_dot cs
      else (case split_dot cs of [] \<Rightarrow> [[c]] | y # ys \<Rightarrow> (c # y) # ys))"

section \<open>Version comparator\<close>

text \<open>
  \<open>re.sub(r'^[^\d.]*|[^\d.]*$', '', version_str)\<close> deletes the longest run of characters
  that are neither digits nor dots at the start of the string, and the longest such run
  at its end; what lies between is kept as it is.
\<close>

definition not_digit_dot :: "char \<Rightarrow> bool" where
  "not_digit_dot c = (\<not> is_digit c \<and> c \<noteq> CHR ''.'')"

definition strip_version :: "string \<Rightarrow> string" where
  "strip_version s = rev (dropWhile not_digit_dot (rev (dropWhile not_digit_dot s)))"

text \<open>The list comprehension \<open>[int(x) for x in ...]\<close>: the first failing piece raises.\<close>

fun ints_of :: "string list \<Rightarrow> exn + int list" where
  "ints_of [] = Inr []"
| "ints_of (x # xs) =
     (case py_int x of
        Inl e \<Rightarrow> Inl e
      | Inr v \<Rightarrow> (case ints_of xs of Inl e \<Rightarrow> Inl e | Inr vs \<Rightarrow> Inr (v # vs)))"

definition parse_version_try :: "string \<Rightarrow> exn + int list" where
  "parse_version_try version_str = ints_of (split_dot (strip_version version_str))"

text \<open>The handler is \<open>except ValueError\<close>: any other exception would leave the function.\<close>

definition parse_version :: "string \<Rightarrow> exn + int list" where
  "parse_version version_str =
     (case parse_version_try version_str of
        Inr parts \<Rightarrow> Inr parts
      | Inl (ValueError _) \<Rightarrow> Inr []
      | Inl e \<Rightarrow> Inl e)"

text \<open>
  The loop \<open>for i in range(max(len(local_parts), len(latest_parts)))\<close>, started at index
  \<open>i\<close>; a part beyond the end of its list reads as 0.
\<close>

function compare_from :: "nat \<Rightarrow> int list \<Rightarrow> int list \<Rightarrow> int" where
  "compare_from i local_parts latest_parts =
     (if i < max (length local_parts) (length latest_parts) then
        (let local_part = (if i < length local_parts then local_parts ! i else 0);
             latest_part = (if i < length latest_parts then latest_parts ! i else 0)
         in if local_part < latest_part then - 1
            else if local_part > latest_part then 1
            else compare_from (Suc i) local_parts latest_parts)
      else 0)"
  by pat_completeness auto
termination
  by (relation "measure (\<lambda>(i, xs, ys). max (length xs) (length ys) - i)") auto

declare compare_from.simps [simp del]

definition compare_versions :: "string \<Rightarrow> string \<Rightarrow> exn + int" where
  "compare_versions local_version latest_version =
     (case parse_version local_version of
        Inl e \<Rightarrow> Inl e
      | Inr local_parts \<Rightarrow>
          (case parse_version latest_version of
             Inl e \<Rightarrow> Inl e
           | Inr latest_parts \<Rightarrow> Inr (compare_from 0 local_parts latest_parts)))"

subsection \<open>The comparison as the specification words it\<close>

text \<open>
  The specification's wording of the comparator: every piece is parsed as an integer and a
  failing piece makes the whole version the empty sequence; the shorter sequence is
  padded with zeros, and the first position where the two differ decides.
\<close>

definition spec_parse :: "string \<Rightarrow> int list" where
  "spec_parse s =
     (let pieces = map py_int (split_dot (strip_version s))
      in if list_ex isl pieces then [] else map projr pieces)"

definition zero_pad :: "nat \<Rightarrow> int list \<Rightarrow> int list" where
  "zero_pad n xs = xs @ replicate (n - length xs) 0"

fun first_difference :: "(int \<times> int) list \<Rightarrow> int" where
  "first_difference [] = 0"
| "first_difference ((a, b) # rest) =
     (if a < b then - 1 else if a > b then 1 else first_difference rest)"

definition spec_compare :: "string \<Rightarrow> string \<Rightarrow> int" where
  "spec_compare a b =
     (let xs = spec_parse a; ys = spec_parse b; n = max (length xs) (length ys)
      in first_difference (zip (zero_pad n xs) (zero_pad n ys)))"

text \<open>
  How the empty version compares with a sequence: the sign of the first component that
  is not zero decides, and the result is 0 when there is none.
\<close>

definition against_empty :: "int list \<Rightarrow> int" where
  "against_empty vs =
     (case dropWhile (\<lambda>x. x = 0) vs of
        [] \<Rightarrow> 0
      | x # _ \<Rightarrow> if 0 < x then - 1 else 1)"

section \<open>Regular expressions\<close>

text \<open>
  The patterns of the module use literals, \<open>\d\<close>, the dot, sequencing and the greedy
  \<open>+\<close> and \<open>*\<close>. \<open>rx_rest r s\<close> lists what can remain of \<open>s\<close> after \<open>r\<close> has matched at its
  start, in the order in which the backtracking matcher of \<open>re\<close> tries the alternatives
  (longest repetition first); the head of the list is the match \<open>re\<close> reports.
\<close>

datatype rx =
    Eps
  | Lit char
  | Digit
  | AnyChar
  | Seq rx rx
  | Star rx

fun rx_rest :: "rx \<Rightarrow> string \<Rightarrow> string list" where
  "rx_rest Eps s = [s]"
| "rx_rest (Lit c) s = (case s of [] \<Rightarrow> [] | x # xs \<Rightarrow> if x = c then [xs] else [])"
| "rx_rest Digit s = (case s of [] \<Rightarrow> [] | x # xs \<Rightarrow> if is_digit x then [xs] else [])"
| "rx_rest AnyChar s =
     (case s of [] \<Rightarrow> [] | x # xs \<Rightarrow> if x \<noteq> CHR 0x0A then [xs] else [])"
| "rx_rest (Seq a b) s = concat (map (rx_rest b) (rx_rest a s))"
| "rx_rest (Star a) s =
     concat (map (\<lambda>t. if length t < length s then rx_rest (Star a) t else []) (rx_rest a s))
     @ [s]"

definition Plus :: "rx \<Rightarrow> rx" where
  "Plus a = Seq a (Star a)"

fun Lits :: "string \<Rightarrow> rx" where
  "Lits [] = Eps"
| "Lits (c # cs) = Seq (Lit c) (Lits cs)"

text \<open>\<open>pattern.match(s)\<close>: a match at the start of \<open>s\<close>; the end of \<open>s\<close> is not anchored.\<close>

definition rx_match :: "rx \<Rightarrow> string \<Rightarrow> bool" where
  "rx_match r s = (rx_rest r s \<noteq> [])"


text \<open>The version number \<open>\d+\.\d+\.\d+\<close>.\<close>

definition three_numbers :: rx where
  "three_numbers =
     Seq (Plus Digit) (Seq (Lit CHR ''.'') (Seq (Plus Digit) (Seq (Lit CHR ''.'')
       (Plus Digit))))"

section \<open>Files and directories\<close>

text \<open>
  A path is the list of its components and \<open>os.path.join\<close> appends components. A file
  system is a tree; a directory lists its entries in the order \<open>os.listdir\<close> gives them,
  and the content of a file is its text. Names are compared as they are written. Links,
  permissions and full disks are not part of the model: an operation fails only where the
  shape of the tree makes it fail.
\<close>

type_synonym path = "string list"

datatype node = File string | Dir "(string \<times> node) list"

fun lookup :: "path \<Rightarrow> node \<Rightarrow> node option" where
  "lookup [] n = Some n"
| "lookup (x # xs) n =
     (case n of
        File _ \<Rightarrow> None
      | Dir es \<Rightarrow> (case map_of es x of None \<Rightarrow> None | Some c \<Rightarrow> lookup xs c))"

definition path_exists :: "path \<Rightarrow> node \<Rightarrow> bool" where
  "path_exists p fs = (lookup p fs \<noteq> None)"

definition isdir :: "path \<Rightarrow> node \<Rightarrow> bool" where
  "isdir p fs = (case lookup p fs of Some (Dir _) \<Rightarrow> True | _ \<Rightarrow> False)"

definition isfile :: "path \<Rightarrow> node \<Rightarrow> bool" where
  "isfile p fs = (case lookup p fs of Some (File _) \<Rightarrow> True | _ \<Rightarrow> False)"

definition listdir :: "path \<Rightarrow> node \<Rightarrow> string list" where
  "listdir p fs = (case lookup p fs of Some (Dir es) \<Rightarrow> map fst es | _ \<Rightarrow> [])"

text \<open>
  \<open>put p new fs\<close> makes \<open>new\<close> the entry at \<open>p\<close>, and \<open>remove p fs\<close> deletes the entry at
  \<open>p\<close>; both leave the tree as it is when the directory that holds \<open>p\<close> does not exist.
\<close>

fun put :: "path \<Rightarrow> node \<Rightarrow> node \<Rightarrow> node" where
  "put [] new n = new"
| "put [x] new n =
     (case n of File c \<Rightarrow> File c | Dir es \<Rightarrow> Dir (AList.update x new es))"
| "put (x # y # ys) new n =
     (case n of
        File c \<Rightarrow> File c
      | Dir es \<Rightarrow>
          (case map_of es x of
             None \<Rightarrow> Dir es
           | Some c \<Rightarrow> Dir (AList.update x (put (y # ys) new c) es)))"

fun remove :: "path \<Rightarrow> node \<Rightarrow> node" where
  "remove [] n = n"
| "remove [x] n =
     (case n of File c \<Rightarrow> File c | Dir es \<Rightarrow> Dir (AList.delete x es))"
| "remove (x # y # ys) n =
     (case n of
        File c \<Rightarrow> File c
      | Dir es \<Rightarrow>
          (case map_of es x of
             None \<Rightarrow> Dir es
           | Some c \<Rightarrow> Dir (AList.update x (remove (y # ys) c) es)))"

text \<open>
  \<open>os.makedirs(name, exist_ok=True)\<close>: every missing directory along the path is
  created; a file in the way raises.
\<close>

fun makedirs :: "path \<Rightarrow> node \<Rightarrow> exn + node" where
  "makedirs [] n =
     (case n of Dir _ \<Rightarrow> Inr n | File _ \<Rightarrow> Inl (OSError ''FileExistsError''))"
| "makedirs (x # xs) n =
     (case n of
        File _ \<Rightarrow> Inl (OSError ''NotADirectoryError'')
      | Dir es \<Rightarrow>
          (case makedirs xs (case map_of es x of None \<Rightarrow> Dir [] | Some c \<Rightarrow> c) of
             Inl e \<Rightarrow> Inl e
           | Inr c' \<Rightarrow> Inr (Dir (AList.update x c' es))))"

text \<open>Opening \<open>p\<close> for writing and writing \<open>content\<close>: the directory of \<open>p\<close> must exist.\<close>

definition write_file :: "path \<Rightarrow> string \<Rightarrow> node \<Rightarrow> exn + node" where
  "write_file p content fs =
     (if isdir p fs then Inl (OSError ''IsADirectoryError'')
      else if p \<noteq> [] \<and> isdir (butlast p) fs then Inr (put p (File content) fs)
      else Inl (OSError ''FileNotFoundError''))"

definition basename :: "path \<Rightarrow> string" where
  "basename p = (if p = [] then [] else last p)"

definition join_name :: "path \<Rightarrow> string \<Rightarrow> path" where
  "join_name p name = (if name = [] then p else p @ [name])"

text \<open>
  \<open>shutil.copy2(src, dst)\<close>, the source read in the tree \<open>from\<close> and the destination
  written in \<open>fs\<close>: a destination that is a directory receives the file under the
  source's name. \<open>same\<close> says that \<open>from\<close> and \<open>fs\<close> are one file system, where copying a
  file onto itself raises.
\<close>

definition copy2 :: "bool \<Rightarrow> node \<Rightarrow> path \<Rightarrow> path \<Rightarrow> node \<Rightarrow> exn + node" where
  "copy2 same from src dst fs =
     (let dst' = (if isdir dst fs then join_name dst (basename src) else dst)
      in if same \<and> path_exists src from \<and> src = dst' then Inl (OSError ''SameFileError'')
         else (case lookup src from of
                 None \<Rightarrow> Inl (OSError ''FileNotFoundError'')
               | Some (Dir _) \<Rightarrow> Inl (OSError ''IsADirectoryError'')
               | Some (File content) \<Rightarrow> write_file dst' content fs))"

text \<open>\<open>shutil.rmtree(p)\<close>: \<open>p\<close> must be a directory.\<close>

definition rmtree :: "path \<Rightarrow> node \<Rightarrow> exn + node" where
  "rmtree p fs =
     (case lookup p fs of
        None \<Rightarrow> Inl (OSError ''FileNotFoundError'')
      | Some (File _) \<Rightarrow> Inl (OSError ''NotADirectoryError'')
      | Some (Dir _) \<Rightarrow> Inr (remove p fs))"

text \<open>
  \<open>shutil.copytree(src, dst)\<close>: the destination must not exist; it is created, with the
  directories above it, and receives a copy of the whole source directory.
\<close>

definition copytree :: "node \<Rightarrow> path \<Rightarrow> path \<Rightarrow> node \<Rightarrow> exn + node" where
  "copytree from src dst fs =
     (case lookup src from of
        None \<Rightarrow> Inl (OSError ''FileNotFoundError'')
      | Some (File _) \<Rightarrow> Inl (OSError ''NotADirectoryError'')
      | Some (Dir es) \<Rightarrow>
          if path_exists dst fs then Inl (OSError ''FileExistsError'')
          else (case makedirs dst fs of
                  Inl e \<Rightarrow> Inl e
                | Inr fs' \<Rightarrow> Inr (put dst (Dir es) fs')))"

text \<open>
  The search \<open>for root, _, files in os.walk(top)\<close> that stops at the first directory whose
  files include \<open>name\<close>: a directory is visited before its subdirectories, and these in
  listing order. The result is the path of the file below \<open>top\<close>.
\<close>

fun first_some :: "'a option list \<Rightarrow> 'a option" where
  "first_some [] = None"
| "first_some (None # rest) = first_some rest"
| "first_some (Some v # rest) = Some v"

fun is_file_node :: "node \<Rightarrow> bool" where
  "is_file_node (File _) = True"
| "is_file_node (Dir _) = False"

fun walk_find :: "string \<Rightarrow> node \<Rightarrow> path option" where
  "walk_find name (File _) = None"
| "walk_find name (Dir es) =
     (if name \<in> set (map fst (filter (\<lambda>e. is_file_node (snd e)) es)) then Some [name]
      else first_some
             (map (\<lambda>e. map_option ((#) (fst e)) (walk_find name (snd e)))
                  (filter (\<lambda>e. \<not> is_file_node (snd e)) es)))"

section \<open>Texts\<close>

definition quoted :: "string \<Rightarrow> string" where
  "quoted s = [CHR 0x27] @ s @ [CHR 0x27]"

text \<open>The text of a path in a message: its components, joined by slashes.\<close>

fun path_text :: "path \<Rightarrow> string" where
  "path_text [] = []"
| "path_text [x] = x"
| "path_text (x # y # ys) = x @ ''/'' @ path_text (y # ys)"

text \<open>\<open>str(n)\<close> for a natural number.\<close>

function str_nat :: "nat \<Rightarrow> string" where
  "str_nat n =
     (if n < 10 then [char_of (48 + n)]
      else str_nat (n div 10) @ [char_of (48 + n mod 10)])"
  by pat_completeness auto
termination
  by (relation "measure (\<lambda>n. n)") auto

declare str_nat.simps [simp del]

text \<open>\<open>s.startswith('v')\<close> and the truth value of an optional string.\<close>

definition starts_with_v :: "string \<Rightarrow> bool" where
  "starts_with_v s = (case s of [] \<Rightarrow> False | c # _ \<Rightarrow> c = CHR ''v'')"

definition truthy :: "string option \<Rightarrow> bool" where
  "truthy v = (case v of None \<Rightarrow> False | Some s \<Rightarrow> s \<noteq> [])"

section \<open>Local inventory reader\<close>




text \<open>The three messages for a missing drive, directory and file.\<close>

definition drive_not_found :: "path \<Rightarrow> string" where
  "drive_not_found drive_letter =
     ''Error: Drive letter '' @ quoted (path_text drive_letter) @ '' not found.''"




definition get_local_gm9_version :: "node \<Rightarrow> path \<Rightarrow> string option \<times> string option" where
  "get_local_gm9_version fs drive_letter =
     (let gm9_payload_path = drive_letter @ [''luma'', ''payloads'', ''GodMode9.firm'']
      in if \<not> path_exists drive_letter fs then
           (None, Some (drive_not_found drive_letter))
         else if \<not> path_exists (drive_letter @ [''luma'', ''payloads'']) fs then
           (None, Some (''Error: The '' @ quoted ''luma/payloads''
                        @ '' directory was not found on ''
                        @ quoted (path_text drive_letter) @ ''.''))
         else if \<not> path_exists gm9_payload_path fs then
           (Some ''Not found'',
            Some (''Error: The file '' @ quoted (path_text gm9_payload_path)
                  @ '' (GodMode9.firm) was not found.''))
         else (Some ''Installed'', None))"

section \<open>Release lookup\<close>

text \<open>
  The answer of the release host, at the schema the module reads: the tag, and the assets
  in the order the host lists them, each with a name and a download address. A missing
  key is \<open>None\<close>; a missing asset list is the empty list. A request that fails, or an
  answer that is not JSON, is an exception.
\<close>

record asset =
  name :: "string option"
  browser_download_url :: "string option"

record release =
  tag_name :: "string option"
  assets :: "asset list"

record release_info =
  version :: string
  download_url :: string

definition luma_zip_pattern :: rx where
  "luma_zip_pattern = Seq (Lits ''Luma3DSv'') (Seq three_numbers (Lits ''.zip''))"

definition gm9_zip_pattern :: rx where
  "gm9_zip_pattern =
     Seq (Lits ''GodMode9-v'') (Seq three_numbers (Seq (Star AnyChar) (Lits ''.zip'')))"

text \<open>The messages for a release without a matching asset.\<close>

definition luma_asset_not_found :: string where
  "luma_asset_not_found =
     ''Error: Could not find the Luma3DS ZIP file (pattern '' @ quoted ''Luma3DSvX.Y.Z.zip''
       @ '') in the latest GitHub Release. The asset name might have changed.''"

definition gm9_asset_not_found :: string where
  "gm9_asset_not_found =
     ''Error: Could not find the GodMode9 ZIP file (pattern ''
       @ quoted ''GodMode9-vX.Y.Z-*.zip''
       @ '') in the latest GitHub Release. The asset name might have changed.''"

text \<open>
  The loop over the assets, with its \<open>break\<close> at the first asset whose name matches:
  the value of \<open>download_url\<close> after the loop.
\<close>

fun first_matching_url :: "rx \<Rightarrow> asset list \<Rightarrow> string option" where
  "first_matching_url pattern [] = None"
| "first_matching_url pattern (a # rest) =
     (if truthy (name a) \<and> rx_match pattern (the (name a)) then browser_download_url a
      else first_matching_url pattern rest)"

definition get_latest_luma_release_info ::
  "exn + release \<Rightarrow> release_info option \<times> string option" where
  "get_latest_luma_release_info response =
     (case response of
        Inl (RequestException t) \<Rightarrow>
          (None, Some (''Error connecting to GitHub: '' @ t
                       @ ''. Please check your internet connection.''))
      | Inl e \<Rightarrow> (None, Some (''An unexpected error occurred: '' @ exn_text e))
      | Inr data \<Rightarrow>
          (let tag = tag_name data;
               url = first_matching_url luma_zip_pattern (assets data)
           in if truthy tag \<and> starts_with_v (the tag) \<and> truthy url then
                (Some \<lparr>version = tl (the tag), download_url = the url\<rparr>, None)
              else if \<not> truthy tag \<or> \<not> starts_with_v (the tag) then
                (None, Some (''Error: Could not find the latest Luma3DS version number ''
                             @ ''on GitHub (tag_name missing or invalid).''))
              else if \<not> truthy url then
                (None, Some luma_asset_not_found)
              else
                (None, Some ''An unexpected error occurred while parsing GitHub release data.'')))"

definition get_latest_gm9_release_info ::
  "exn + release \<Rightarrow> release_info option \<times> string option" where
  "get_latest_gm9_release_info response =
     (case response of
        Inl (RequestException t) \<Rightarrow>
          (None, Some (''Error connecting to GitHub for GodMode9: '' @ t
                       @ ''. Please check your internet connection.''))
      | Inl e \<Rightarrow> (None, Some (''An unexpected error occurred: '' @ exn_text e))
      | Inr data \<Rightarrow>
          (let tag = tag_name data;
               url = first_matching_url gm9_zip_pattern (assets data)
           in if truthy tag \<and> starts_with_v (the tag) \<and> truthy url then
                (Some \<lparr>version = tl (the tag), download_url = the url\<rparr>, None)
              else if \<not> truthy tag \<or> \<not> starts_with_v (the tag) then
                (None, Some (''Error: Could not find the latest GodMode9 version number ''
                             @ ''on GitHub (tag_name missing or invalid).''))
              else if \<not> truthy url then
                (None, Some gm9_asset_not_found)
              else
                (None, Some (''An unexpected error occurred while parsing GitHub release ''
                             @ ''data for GodMode9.''))))"

section \<open>Update executor\<close>

text \<open>
  A progress event is what the callback receives: message, percent, status. The events of
  one call are listed in the order of the calls; without a callback there are none.
\<close>

type_synonym event = "string \<times> int \<times> string"

definition emit :: "bool \<Rightarrow> event \<Rightarrow> event list" where
  "emit progress_callback ev = (if progress_callback then [ev] else [])"

text \<open>
  Two expressions of the download loop are floating-point computations, which are not
  modelled; their results are taken from the two fields of \<open>rounding\<close>:
  \<open>scaled50 d t\<close> stands for \<open>int((d / t) * 50)\<close> and \<open>megabytes n\<close> for the text of
  \<open>n / (1024*1024)\<close> with two decimals.
\<close>

record rounding =
  scaled50 :: "nat \<Rightarrow> int \<Rightarrow> int"
  megabytes :: "int \<Rightarrow> string"

text \<open>
  What the network and the archive give to one update: the advertised content length,
  the lengths of the chunks received in order, the exception that ended the request or the
  transfer (if one did), and what extracting the downloaded archive produces: the
  extracted tree or an exception. The temporary directory is a tree of its own; creating
  and removing it is taken to work.
\<close>

record fetched =
  content_length :: int
  chunks :: "nat list"
  broken :: "exn option"
  archive :: "exn + node"

fun download_events :: "rounding \<Rightarrow> bool \<Rightarrow> int \<Rightarrow> nat \<Rightarrow> nat list \<Rightarrow> event list" where
  "download_events fl cb total_size downloaded_size [] = []"
| "download_events fl cb total_size downloaded_size (chunk # rest) =
     (if chunk = 0 then download_events fl cb total_size downloaded_size rest
      else
        (if cb \<and> 0 < total_size then
           [(''Downloaded: '' @ megabytes fl (int (downloaded_size + chunk)) @ '' MB of ''
               @ megabytes fl total_size @ '' MB'',
             scaled50 fl (downloaded_size + chunk) total_size + 10, ''info'')]
         else [])
        @ download_events fl cb total_size (downloaded_size + chunk) rest)"

subsection \<open>Luma3DS\<close>

text \<open>
  The loop over \<open>os.listdir(src_luma_config_dir)\<close>: files are copied, directories are
  passed over. The result is the device after the loop and the exception that stopped it.
\<close>

fun copy_config_items ::
  "node \<Rightarrow> path \<Rightarrow> path \<Rightarrow> string list \<Rightarrow> node \<Rightarrow> node \<times> exn option" where
  "copy_config_items extracted src dst [] fs = (fs, None)"
| "copy_config_items extracted src dst (item # rest) fs =
     (if isfile (src @ [item]) extracted then
        (case copy2 False extracted (src @ [item]) (dst @ [item]) fs of
           Inl e \<Rightarrow> (fs, Some e)
         | Inr fs' \<Rightarrow> copy_config_items extracted src dst rest fs')
      else copy_config_items extracted src dst rest fs)"

text \<open>
  The three statements that copy: \<open>boot.firm\<close>, \<open>boot.3dsx\<close> and the \<open>luma/config\<close>
  folder. Each gives its events and the device after it, or the exception it raises.
\<close>

definition copy_boot_firm ::
  "bool \<Rightarrow> node \<Rightarrow> path \<Rightarrow> node \<Rightarrow> event list \<times> (exn + node)" where
  "copy_boot_firm cb extracted sd_card_root fs =
     (if path_exists [''boot.firm''] extracted then
        (emit cb (''Copying boot.firm...'', 75, ''info''),
         copy2 False extracted [''boot.firm''] (sd_card_root @ [''boot.firm'']) fs)
      else
        (emit cb (''Warning: '' @ quoted ''boot.firm''
                  @ '' not found in extracted Luma archive.'', 75, ''warning''),
         Inr fs))"

definition copy_boot_3dsx ::
  "bool \<Rightarrow> node \<Rightarrow> path \<Rightarrow> node \<Rightarrow> event list \<times> (exn + node)" where
  "copy_boot_3dsx cb extracted sd_card_root fs =
     (if path_exists [''boot.3dsx''] extracted then
        (emit cb (''Copying boot.3dsx...'', 80, ''info''),
         copy2 False extracted [''boot.3dsx''] (sd_card_root @ [''boot.3dsx'']) fs)
      else
        (emit cb (''Warning: '' @ quoted ''boot.3dsx''
                  @ '' not found in extracted Luma archive.'', 80, ''warning''),
         Inr fs))"

definition update_luma_config ::
  "bool \<Rightarrow> node \<Rightarrow> path \<Rightarrow> node \<Rightarrow> event list \<times> node \<times> exn option" where
  "update_luma_config cb extracted sd_card_luma_config_dir fs =
     (if isdir [''luma'', ''config''] extracted then
        (case makedirs sd_card_luma_config_dir fs of
           Inl e \<Rightarrow> (emit cb (''Updating luma/config folder...'', 85, ''info''), fs, Some e)
         | Inr fs' \<Rightarrow>
             (case copy_config_items extracted [''luma'', ''config''] sd_card_luma_config_dir
                     (listdir [''luma'', ''config''] extracted) fs' of
                (fs'', r) \<Rightarrow>
                  (emit cb (''Updating luma/config folder...'', 85, ''info''), fs'', r)))
      else
        (emit cb (''Warning: Luma/config folder not found in release.'', 85, ''warning''),
         fs, None))"

text \<open>
  The copying steps in sequence, from \<open>sd_card_root = drive_letter\<close> to the \<open>return\<close>:
  the events, the device as the steps left it, and the value returned or the exception
  raised.
\<close>

definition luma_inject ::
  "bool \<Rightarrow> node \<Rightarrow> path \<Rightarrow> node \<Rightarrow> event list \<times> node \<times> (exn + bool \<times> string)" where
  "luma_inject cb extracted drive_letter fs =
     (case copy_boot_firm cb extracted drive_letter fs of
        (ev1, Inl e) \<Rightarrow> (ev1, fs, Inl e)
      | (ev1, Inr fs1) \<Rightarrow>
          (case copy_boot_3dsx cb extracted drive_letter fs1 of
             (ev2, Inl e) \<Rightarrow> (ev1 @ ev2, fs1, Inl e)
           | (ev2, Inr fs2) \<Rightarrow>
               (case update_luma_config cb extracted
                       (drive_letter @ [''luma'', ''config'']) fs2 of
                  (ev3, fs3, Some e) \<Rightarrow> (ev1 @ ev2 @ ev3, fs3, Inl e)
                | (ev3, fs3, None) \<Rightarrow>
                    (ev1 @ ev2 @ ev3
                       @ emit cb (''Luma3DS files successfully copied.'', 100, ''success''),
                     fs3, Inr (True, ''Luma3DS update successful.'')))))"

text \<open>The body of the \<open>try\<close> statement.\<close>

definition luma_try ::
  "rounding \<Rightarrow> node \<Rightarrow> path \<Rightarrow> fetched \<Rightarrow> bool
     \<Rightarrow> event list \<times> node \<times> (exn + bool \<times> string)" where
  "luma_try fl fs drive_letter f cb =
     (let ev = emit cb (''Downloading Luma3DS...'', 10, ''info'')
               @ download_events fl cb (content_length f) 0 (chunks f)
      in case broken f of
           Some e \<Rightarrow> (ev, fs, Inl e)
         | None \<Rightarrow>
             (case archive f of
                Inl e \<Rightarrow> (ev @ emit cb (''Luma3DS archive downloaded.'', 60, ''info''), fs, Inl e)
              | Inr extracted \<Rightarrow>
                  (case luma_inject cb extracted drive_letter fs of
                     (ev', fs', r) \<Rightarrow>
                       (ev @ emit cb (''Luma3DS archive downloaded.'', 60, ''info'')
                           @ emit cb (''Luma3DS archive extracted.'', 70, ''info'') @ ev',
                        fs', r))))"

text \<open>
  The function: the events it emits, the device after it, and the pair it returns. The
  download address of the source is represented by what fetching it gives.
\<close>

definition download_and_inject_luma_update ::
  "rounding \<Rightarrow> node \<Rightarrow> path \<Rightarrow> fetched \<Rightarrow> bool \<Rightarrow> event list \<times> node \<times> bool \<times> string" where
  "download_and_inject_luma_update fl fs drive_letter f progress_callback =
     (let start = emit progress_callback (''Starting Luma3DS update process...'', 0, ''info'')
      in case luma_try fl fs drive_letter f progress_callback of
           (ev, fs', Inr result) \<Rightarrow> (start @ ev, fs', result)
         | (ev, fs', Inl (RequestException t)) \<Rightarrow>
             (start @ ev @ emit progress_callback (''Network error: '' @ t, 0, ''error''), fs',
              False, ''Network error downloading Luma3DS: '' @ t)
         | (ev, fs', Inl (BadZipFile t)) \<Rightarrow>
             (start @ ev
                @ emit progress_callback
                    (''Error: Downloaded Luma3DS ZIP is corrupted.'', 0, ''error''), fs',
              False, ''The downloaded Luma3DS ZIP file is corrupted.'')
         | (ev, fs', Inl e) \<Rightarrow>
             (start @ ev
                @ emit progress_callback
                    (''An unexpected Luma3DS error occurred: '' @ exn_text e, 0, ''error''), fs',
              False, ''An unexpected error during Luma3DS update: '' @ exn_text e))"

subsection \<open>GodMode9\<close>

text \<open>
  The loop over \<open>os.listdir(src_gm9_folder)\<close>: \<open>scripts\<close> is passed over, another
  directory is deleted at the destination and copied anew, a file is copied over.
\<close>

fun gm9_merge ::
  "bool \<Rightarrow> node \<Rightarrow> path \<Rightarrow> path \<Rightarrow> string list \<Rightarrow> node
     \<Rightarrow> event list \<times> node \<times> exn option" where
  "gm9_merge cb extracted src_gm9_folder dest_gm9_folder [] fs = ([], fs, None)"
| "gm9_merge cb extracted src_gm9_folder dest_gm9_folder (item_name # rest) fs =
     (let src_item_path = src_gm9_folder @ [item_name];
          dest_item_path = dest_gm9_folder @ [item_name]
      in if item_name = ''scripts'' then
           (case gm9_merge cb extracted src_gm9_folder dest_gm9_folder rest fs of
              (ev, fs', r) \<Rightarrow>
                (emit cb (''Skipping gm9/scripts folder...'', 85, ''info'') @ ev, fs', r))
         else if isdir src_item_path extracted then
           (case (if path_exists dest_item_path fs then rmtree dest_item_path fs else Inr fs) of
              Inl e \<Rightarrow> ([], fs, Some e)
            | Inr fs1 \<Rightarrow>
                (case copytree extracted src_item_path dest_item_path fs1 of
                   Inl e \<Rightarrow> ([], fs1, Some e)
                 | Inr fs2 \<Rightarrow>
                     gm9_merge cb extracted src_gm9_folder dest_gm9_folder rest fs2))
         else if isfile src_item_path extracted then
           (case copy2 False extracted src_item_path dest_item_path fs of
              Inl e \<Rightarrow> ([], fs, Some e)
            | Inr fs1 \<Rightarrow> gm9_merge cb extracted src_gm9_folder dest_gm9_folder rest fs1)
         else gm9_merge cb extracted src_gm9_folder dest_gm9_folder rest fs)"

text \<open>The update of the \<open>gm9\<close> folder: the \<open>if os.path.isdir(src_gm9_folder)\<close> statement.\<close>

definition gm9_folder_update ::
  "bool \<Rightarrow> node \<Rightarrow> path \<Rightarrow> node \<Rightarrow> event list \<times> node \<times> exn option" where
  "gm9_folder_update cb extracted drive_letter fs =
     (if isdir [''gm9''] extracted then
        (case makedirs (drive_letter @ [''gm9'']) fs of
           Inl e \<Rightarrow> (emit cb (''Updating gm9/ folder...'', 80, ''info''), fs, Some e)
         | Inr fs' \<Rightarrow>
             (case gm9_merge cb extracted [''gm9''] (drive_letter @ [''gm9''])
                     (listdir [''gm9''] extracted) fs' of
                (ev, fs'', r) \<Rightarrow>
                  (emit cb (''Updating gm9/ folder...'', 80, ''info'') @ ev, fs'', r)))
      else ([], fs, None))"

text \<open>The steps after the extraction, from \<open>sd_card_root = drive_letter\<close> to the \<open>return\<close>.\<close>

definition gm9_inject ::
  "bool \<Rightarrow> node \<Rightarrow> path \<Rightarrow> node \<Rightarrow> event list \<times> node \<times> (exn + bool \<times> string)" where
  "gm9_inject cb extracted drive_letter fs =
     (let luma_payloads_dir = drive_letter @ [''luma'', ''payloads'']
      in case makedirs luma_payloads_dir fs of
           Inl e \<Rightarrow> ([], fs, Inl e)
         | Inr fs1 \<Rightarrow>
             (case walk_find ''GodMode9.firm'' extracted of
                None \<Rightarrow>
                  ([], fs1,
                   Inr (False, ''Error: '' @ quoted ''GodMode9.firm''
                               @ '' not found in the extracted GodMode9 archive.''))
              | Some src_gm9_firm \<Rightarrow>
                  (let ev1 = emit cb (''Copying GodMode9.firm...'', 75, ''info'')
                   in case copy2 False extracted src_gm9_firm
                             (luma_payloads_dir @ [''GodMode9.firm'']) fs1 of
                        Inl e \<Rightarrow> (ev1, fs1, Inl e)
                      | Inr fs2 \<Rightarrow>
                          (case gm9_folder_update cb extracted drive_letter fs2 of
                             (ev2, fs3, Some e) \<Rightarrow> (ev1 @ ev2, fs3, Inl e)
                           | (ev2, fs3, None) \<Rightarrow>
                               (ev1 @ ev2
                                  @ emit cb (''GodMode9 files successfully copied.'', 100,
                                             ''success''),
                                fs3, Inr (True, ''GodMode9 update successful.''))))))"

definition gm9_try ::
  "rounding \<Rightarrow> node \<Rightarrow> path \<Rightarrow> fetched \<Rightarrow> bool
     \<Rightarrow> event list \<times> node \<times> (exn + bool \<times> string)" where
  "gm9_try fl fs drive_letter f cb =
     (let ev = emit cb (''Downloading GodMode9...'', 10, ''info'')
               @ download_events fl cb (content_length f) 0 (chunks f)
      in case broken f of
           Some e \<Rightarrow> (ev, fs, Inl e)
         | None \<Rightarrow>
             (case archive f of
                Inl e \<Rightarrow> (ev @ emit cb (''GodMode9 archive downloaded.'', 60, ''info''), fs, Inl e)
              | Inr extracted \<Rightarrow>
                  (case gm9_inject cb extracted drive_letter fs of
                     (ev', fs', r) \<Rightarrow>
                       (ev @ emit cb (''GodMode9 archive downloaded.'', 60, ''info'')
                           @ emit cb (''GodMode9 archive extracted.'', 70, ''info'') @ ev',
                        fs', r))))"

definition download_and_inject_gm9_update ::
  "rounding \<Rightarrow> node \<Rightarrow> path \<Rightarrow> fetched \<Rightarrow> bool \<Rightarrow> event list \<times> node \<times> bool \<times> string" where
  "download_and_inject_gm9_update fl fs drive_letter f progress_callback =
     (let start = emit progress_callback (''Starting GodMode9 update process...'', 0, ''info'')
      in case gm9_try fl fs drive_letter f progress_callback of
           (ev, fs', Inr result) \<Rightarrow> (start @ ev, fs', result)
         | (ev, fs', Inl (RequestException t)) \<Rightarrow>
             (start @ ev @ emit progress_callback (''Network error: '' @ t, 0, ''error''), fs',
              False, ''Network error downloading GodMode9: '' @ t)
         | (ev, fs', Inl (BadZipFile t)) \<Rightarrow>
             (start @ ev
                @ emit progress_callback
                    (''Error: Downloaded GodMode9 ZIP is corrupted.'', 0, ''error''), fs',
              False, ''The downloaded GodMode9 ZIP file is corrupted.'')
         | (ev, fs', Inl e) \<Rightarrow>
             (start @ ev
                @ emit progress_callback
                    (''An unexpected GodMode9 error occurred: '' @ exn_text e, 0, ''error''), fs',
              False, ''An unexpected error during GodMode9 update: '' @ exn_text e))"

section \<open>File dumper\<close>

text \<open>
  \<open>dump_file\<close>: the events, the file system after the call, and the pair returned or
  the exception that leaves the function (\<open>os.makedirs\<close> is called outside the \<open>try\<close>).
  Device and destination folder are paths of one file system.
\<close>

definition dump_file ::
  "bool \<Rightarrow> node \<Rightarrow> path \<Rightarrow> path \<Rightarrow> path \<Rightarrow> event list \<times> node \<times> (exn + bool \<times> string)" where
  "dump_file progress_callback fs drive_letter source_path_on_sd destination_folder =
     (let full_source_path = drive_letter @ source_path_on_sd
      in case makedirs destination_folder fs of
           Inl e \<Rightarrow> ([], fs, Inl e)
         | Inr fs1 \<Rightarrow>
             (let file_name = basename source_path_on_sd;
                  full_destination_path = join_name destination_folder file_name;
                  ev = emit progress_callback
                         (''Starting dump of '' @ file_name @ ''...'', 0, ''info'')
              in if \<not> path_exists full_source_path fs1 then
                   (ev @ emit progress_callback
                           (''Error: Source file '' @ quoted file_name
                              @ '' not found on SD card.'', 0, ''error''),
                    fs1,
                    Inr (False, ''Error: Source file '' @ quoted (path_text full_source_path)
                                @ '' not found.''))
                 else
                   (case copy2 True fs1 full_source_path full_destination_path fs1 of
                      Inr fs2 \<Rightarrow>
                        (ev @ emit progress_callback
                                (''File '' @ quoted file_name @ '' successfully dumped.'', 100,
                                 ''success''),
                         fs2,
                         Inr (True, ''File '' @ quoted file_name @ '' successfully dumped to ''
                                    @ quoted (path_text full_destination_path) @ ''.''))
                    | Inl e \<Rightarrow>
                        (ev @ emit progress_callback
                                (''Error dumping '' @ quoted file_name @ '': '' @ exn_text e, 0,
                                 ''error''),
                         fs1,
                         Inr (False, ''Error dumping '' @ quoted file_name @ '': ''
                                     @ exn_text e)))))"

text \<open>
  The loop of \<open>_run_dump_in_thread\<close> over the selected files, each a pair of its path on
  the device and its display name, with the counter \<open>successful_dumps\<close> and the list
  \<open>all_messages\<close>. \<open>dump_file\<close> is called without a callback. An exception that leaves
  \<open>dump_file\<close> ends the loop. The posts to the user interface are not part of the model.
\<close>

fun dump_loop ::
  "node \<Rightarrow> path \<Rightarrow> path \<Rightarrow> (path \<times> string) list \<Rightarrow> nat \<Rightarrow> string list
     \<Rightarrow> node \<times> (exn + nat \<times> string list)" where
  "dump_loop fs sd_card_drive target_folder [] successful_dumps all_messages =
     (fs, Inr (successful_dumps, all_messages))"
| "dump_loop fs sd_card_drive target_folder ((file_path_on_sd, file_display_name) # rest)
       successful_dumps all_messages =
     (case dump_file False fs sd_card_drive file_path_on_sd target_folder of
        (ev, fs', Inl e) \<Rightarrow> (fs', Inl e)
      | (ev, fs', Inr (success, message)) \<Rightarrow>
          dump_loop fs' sd_card_drive target_folder rest
            (if success then Suc successful_dumps else successful_dumps)
            (all_messages @ [file_display_name @ '': '' @ message]))"

record dump_summary =
  successful :: nat
  total :: nat
  messages :: "string list"
  final_status_type :: string
  final_message :: string

definition run_dump_in_thread ::
  "node \<Rightarrow> path \<Rightarrow> path \<Rightarrow> (path \<times> string) list \<Rightarrow> node \<times> (exn + dump_summary)" where
  "run_dump_in_thread fs sd_card_drive target_folder files_to_dump =
     (let total_files = length files_to_dump
      in case dump_loop fs sd_card_drive target_folder files_to_dump 0 [] of
           (fs', Inl e) \<Rightarrow> (fs', Inl e)
         | (fs', Inr (successful_dumps, all_messages)) \<Rightarrow>
             (fs',
              Inr \<lparr>successful = successful_dumps, total = total_files,
                   messages = all_messages,
                   final_status_type =
                     (if successful_dumps = total_files then ''success''
                      else if successful_dumps > 0 then ''warning'' else ''error''),
                   final_message = str_nat successful_dumps @ '' of '' @ str_nat total_files
                                   @ '' files successfully dumped.''\<rparr>))"

text \<open>
  The table \<open>dump_options_data\<close> of the window: key, path on the device, display name.
  \<open>start_dump_process\<close> passes on the entries whose check box is set, in table order.
\<close>

definition dump_options_data :: "(string \<times> path \<times> string) list" where
  "dump_options_data =
     [(''firm0_enc.bak'', [''boot9strap'', ''firm0_enc.bak''], ''firm0_enc.bak (Boot9Strap)''),
      (''firm1_enc.bak'', [''boot9strap'', ''firm1_enc.bak''], ''firm1_enc.bak (Boot9Strap)''),
      (''bios7i_part1.bin'', [''_nds'', ''bios7i_part1.bin''], ''bios7i_part1.bin (_nds)''),
      (''bios9i_part1.bin'', [''_nds'', ''bios9i_part1.bin''], ''bios9i_part1.bin (_nds)''),
      (''boot9.bin'', [''3ds'', ''boot9.bin''], ''boot9.bin (3ds)''),
      (''boot11.bin'', [''3ds'', ''boot11.bin''], ''boot11.bin (3ds)'')]"

definition dump_files_to_copy :: "(string \<Rightarrow> bool) \<Rightarrow> (path \<times> string) list" where
  "dump_files_to_copy checked =
     map snd (filter (\<lambda>entry. checked (fst entry)) dump_options_data)"

section \<open>Notions used by the properties\<close>

definition percents :: "event list \<Rightarrow> int list" where
  "percents evs = map (\<lambda>ev. fst (snd ev)) evs"

definition statuses :: "event list \<Rightarrow> string list" where
  "statuses evs = map (\<lambda>ev. snd (snd ev)) evs"

definition without_errors :: "event list \<Rightarrow> event list" where
  "without_errors evs = filter (\<lambda>ev. snd (snd ev) \<noteq> ''error'') evs"

text \<open>
  What correctly rounded floating-point arithmetic guarantees of \<open>int((d / t) * 50)\<close> for
  a positive \<open>t\<close>: it is not negative, it grows with \<open>d\<close>, and it is at most 50 while
  \<open>d\<close> does not exceed \<open>t\<close>.
\<close>

definition rounding_ok :: "rounding \<Rightarrow> bool" where
  "rounding_ok fl =
     (\<forall>d d' t. 0 < t \<and> d \<le> d' \<longrightarrow>
        0 \<le> scaled50 fl d t \<and> scaled50 fl d t \<le> scaled50 fl d' t
        \<and> (int d' \<le> t \<longrightarrow> scaled50 fl d' t \<le> 50))"

text \<open>The bytes received never exceed the advertised content length.\<close>

definition within_length :: "fetched \<Rightarrow> bool" where
  "within_length f = (int (sum_list (chunks f)) \<le> content_length f \<or> content_length f \<le> 0)"

text \<open>A rounding that computes with exact integers, for examples.\<close>

definition exact_rounding :: rounding where
  "exact_rounding =
     \<lparr>scaled50 = (\<lambda>d t. (50 * int d) div t),
      megabytes = (\<lambda>n. str_nat (nat n div 1048576))\<rparr>"

text \<open>Two paths diverge when they differ at a position that both have.\<close>

fun diverge :: "path \<Rightarrow> path \<Rightarrow> bool" where
  "diverge (x # xs) (y # ys) = (x \<noteq> y \<or> diverge xs ys)"
| "diverge _ _ = False"

text \<open>The paths of all files of a tree.\<close>

fun all_files :: "node \<Rightarrow> path list" where
  "all_files (File _) = [[]]"
| "all_files (Dir es) = concat (map (\<lambda>e. map ((#) (fst e)) (all_files (snd e))) es)"

text \<open>
  A list of events is steady between \<open>lo\<close> and \<open>hi\<close> when its percent values do not decrease
  and lie in that range, and none of the events is an error event.
\<close>

definition steady :: "int \<Rightarrow> int \<Rightarrow> event list \<Rightarrow> bool" where
  "steady lo hi evs =
     (sorted (percents evs) \<and> (\<forall>p \<in> set (percents evs). lo \<le> p \<and> p \<le> hi)
      \<and> ''error'' \<notin> set (statuses evs))"

text \<open>
  A list of events is orderly when the percent values of its events other than error
  events do not decrease, and every error event carries percent 0.
\<close>

definition orderly :: "event list \<Rightarrow> bool" where
  "orderly evs =
     (sorted (percents (without_errors evs))
      \<and> (\<forall>ev \<in> set evs. snd (snd ev) = ''error'' \<longrightarrow> fst (snd ev) = 0))"

text \<open>
  What the body of the loop of \<open>gm9_merge\<close> does to the device for one item other than
  \<open>scripts\<close>: the device after it and the exception it raised, if any.
\<close>

definition merge_item :: "node \<Rightarrow> path \<Rightarrow> path \<Rightarrow> string \<Rightarrow> node \<Rightarrow> node \<times> exn option" where
  "merge_item extracted src dst item fs =
     (if isdir (src @ [item]) extracted then
        (case (if path_exists (dst @ [item]) fs then rmtree (dst @ [item]) fs else Inr fs) of
           Inl e \<Rightarrow> (fs, Some e)
         | Inr fs1 \<Rightarrow>
             (case copytree extracted (src @ [item]) (dst @ [item]) fs1 of
                Inl e \<Rightarrow> (fs1, Some e)
              | Inr fs2 \<Rightarrow> (fs2, None)))
      else if isfile (src @ [item]) extracted then
        (case copy2 False extracted (src @ [item]) (dst @ [item]) fs of
           Inl e \<Rightarrow> (fs, Some e)
         | Inr fs1 \<Rightarrow> (fs1, None))
      else (fs, None))"

text \<open>
  The device takes the copies of a Luma3DS archive: the device root is a directory;
  \<open>boot.firm\<close> and \<open>boot.3dsx\<close> are not directories, neither in the archive nor on the
  device; neither \<open>luma\<close> nor \<open>luma/config\<close> is a regular file on the device; and the
  device has no directory in \<open>luma/config\<close> under the name of an entry of the archive's
  \<open>luma/config\<close>.
\<close>

definition luma_copy_ready :: "node \<Rightarrow> path \<Rightarrow> node \<Rightarrow> bool" where
  "luma_copy_ready extracted d fs =
     (isdir d fs
      \<and> \<not> isdir [''boot.firm''] extracted \<and> \<not> isdir [''boot.3dsx''] extracted
      \<and> \<not> isdir (d @ [''boot.firm'']) fs \<and> \<not> isdir (d @ [''boot.3dsx'']) fs
      \<and> \<not> isfile (d @ [''luma'']) fs \<and> \<not> isfile (d @ [''luma'', ''config'']) fs
      \<and> list_all (\<lambda>item. \<not> isdir (d @ [''luma'', ''config'', item]) fs)
            (listdir [''luma'', ''config''] extracted))"

section \<open>Properties of the version comparator\<close>

lemma py_int_error: "py_int x = Inl e \<Longrightarrow> \<exists>t. e = ValueError t"
  by (auto simp: py_int_def Let_def split: option.splits)

lemma ints_of_error: "ints_of xs = Inl e \<Longrightarrow> \<exists>t. e = ValueError t"
  by (induction xs arbitrary: e) (auto split: sum.splits dest: py_int_error)

lemma ints_of_map:
  "ints_of xs =
     (if list_ex isl (map py_int xs)
      then Inl (projl (hd (filter isl (map py_int xs))))
      else Inr (map projr (map py_int xs)))"
  by (induction xs) (auto split: sum.splits)

lemma parse_version_total:
  "parse_version s = Inr (case parse_version_try s of Inr parts \<Rightarrow> parts | Inl _ \<Rightarrow> [])"
  unfolding parse_version_def parse_version_try_def
  by (auto split: sum.splits exn.splits dest: ints_of_error)

lemma parse_version_spec: "parse_version s = Inr (spec_parse s)"
  by (simp add: parse_version_total parse_version_try_def spec_parse_def ints_of_map Let_def)

lemma compare_from_range:
  "compare_from i xs ys = - 1 \<or> compare_from i xs ys = 0 \<or> compare_from i xs ys = 1"
proof (induction i xs ys rule: compare_from.induct)
  case (1 i xs ys)
  show ?case
  proof (cases "i < max (length xs) (length ys)")
    case False
    then show ?thesis by (subst (1 2 3) compare_from.simps) simp
  next
    case True
    then show ?thesis
      using "1.IH" by (subst (1 2 3) compare_from.simps) (auto simp: Let_def)
  qed
qed

lemma zero_pad_nth:
  "i < n \<Longrightarrow> length xs \<le> n \<Longrightarrow> zero_pad n xs ! i = (if i < length xs then xs ! i else 0)"
  by (simp add: zero_pad_def nth_append)

lemma zero_pad_length: "length xs \<le> n \<Longrightarrow> length (zero_pad n xs) = n"
  by (simp add: zero_pad_def)

lemma compare_from_padded:
  "compare_from i xs ys =
     first_difference
       (drop i (zip (zero_pad (max (length xs) (length ys)) xs)
                    (zero_pad (max (length xs) (length ys)) ys)))"
proof (induction i xs ys rule: compare_from.induct)
  case (1 i xs ys)
  let ?n = "max (length xs) (length ys)"
  let ?zs = "zip (zero_pad ?n xs) (zero_pad ?n ys)"
  have len: "length ?zs = ?n"
    by (simp add: zero_pad_length)
  show ?case
  proof (cases "i < ?n")
    case False
    then have "length ?zs \<le> i" using len by arith
    then have "drop i ?zs = []" by (rule drop_all)
    with False show ?thesis by (subst compare_from.simps) simp
  next
    case True
    then have inside: "i < length ?zs"
      using len by arith
    then have step: "drop i ?zs = ?zs ! i # drop (Suc i) ?zs"
      by (rule Cons_nth_drop_Suc [symmetric])
    have "?zs ! i = (zero_pad ?n xs ! i, zero_pad ?n ys ! i)"
      using inside by simp
    then have at: "?zs ! i = (if i < length xs then xs ! i else 0, if i < length ys then ys ! i else 0)"
      using True by (simp add: zero_pad_nth)
    show ?thesis
      using True "1.IH"
      by (subst compare_from.simps) (simp add: step at Let_def)
  qed
qed

lemma first_difference_zeros:
  "first_difference (zip (replicate (length vs) 0) vs) = against_empty vs"
  by (induction vs) (auto simp: against_empty_def)

lemma compare_from_empty: "compare_from 0 [] vs = against_empty vs"
  by (simp add: compare_from_padded zero_pad_def first_difference_zeros)

text \<open>
  C2. \<open>compare_versions\<close> strips the characters that are neither digits nor dots from both
  ends of each input, splits at the dots, parses the pieces as integers and compares
  position by position with the shorter sequence padded with zeros, the first differing
  position giving -1 or 1 and no difference giving 0: it computes what the specification's
  wording computes. The four examples of the specification evaluate as stated.
\<close>

theorem compare_versions_spec:
  "compare_versions a b = Inr (spec_compare a b)
   \<and> compare_versions ''1.2.3'' ''1.2.4'' = Inr (- 1)
   \<and> compare_versions ''1.10.0'' ''1.9.9'' = Inr 1
   \<and> compare_versions ''2.0'' ''2.0.0'' = Inr 0
   \<and> compare_versions ''v1.2.3-rc'' ''1.2.3'' = Inr 0"
proof -
  have general: "compare_versions a b = Inr (spec_compare a b)"
    by (simp add: compare_versions_def parse_version_spec spec_compare_def
        compare_from_padded Let_def)
  have e1: "compare_versions ''1.2.3'' ''1.2.4'' = Inr (- 1)" by code_simp
  have e2: "compare_versions ''1.10.0'' ''1.9.9'' = Inr 1" by code_simp
  have e3: "compare_versions ''2.0'' ''2.0.0'' = Inr 0" by code_simp
  have e4: "compare_versions ''v1.2.3-rc'' ''1.2.3'' = Inr 0" by code_simp
  from general e1 e2 e3 e4 show ?thesis by blast
qed

theorem compare_versions_spec_witness:
  "compare_versions ''3.0'' ''v3.0.1'' = Inr (spec_compare ''3.0'' ''v3.0.1'')
   \<and> spec_compare ''3.0'' ''v3.0.1'' = - 1"
proof -
  have "spec_compare ''3.0'' ''v3.0.1'' = - 1" by code_simp
  then show ?thesis
    using compare_versions_spec [of "''3.0''" "''v3.0.1''"] by simp
qed

text \<open>
  C3, as the code has it. A version whose parsing fails becomes the empty sequence, and
  the empty sequence compares as all zeros: against a version that parses, the result is
  -1 when the first non-zero component of that version is positive, 0 when all its
  components are zero, and 1 when its first non-zero component is negative (a piece such
  as \<open>-2\<close> parses to a negative integer).
\<close>

theorem malformed_compares_as_zeros:
  assumes "parse_version_try m = Inl (ValueError t)"
    and "parse_version_try v = Inr vs"
  shows "vs \<noteq> [] \<and> compare_versions m v = Inr (against_empty vs)"
proof -
  have "split_dot s \<noteq> []" for s
    by (cases s) (auto split: list.splits)
  then have "vs \<noteq> []"
    using assms(2) unfolding parse_version_try_def
    by (cases "split_dot (strip_version v)") (auto split: sum.splits)
  moreover have "compare_versions m v = Inr (against_empty vs)"
    using assms
    by (simp add: compare_versions_def parse_version_def compare_from_empty)
  ultimately show ?thesis by simp
qed

theorem malformed_compares_as_zeros_witness:
  "parse_version_try ''1.x.3'' = Inl (ValueError ''invalid literal for int() with base 10: x'')
   \<and> parse_version_try ''0.4'' = Inr [0, 4]
   \<and> compare_versions ''1.x.3'' ''0.4'' = Inr (- 1)"
proof -
  have m: "parse_version_try ''1.x.3'' = Inl (ValueError ''invalid literal for int() with base 10: x'')"
    by code_simp
  have v: "parse_version_try ''0.4'' = Inr [0, 4]"
    by code_simp
  have "against_empty [0, 4] = - 1"
    by (simp add: against_empty_def)
  with malformed_compares_as_zeros [OF m v] m v show ?thesis by simp
qed

text \<open>
  The claim C3 as it is written fails: \<open>abc\<close> does not parse, \<open>0\<close> parses to the non-empty
  sequence \<open>[0]\<close>, and the comparison gives 0, not -1.
\<close>

theorem malformed_not_always_older:
  "parse_version_try ''abc'' = Inl (ValueError ''invalid literal for int() with base 10: '')
   \<and> parse_version_try ''0'' = Inr [0]
   \<and> compare_versions ''abc'' ''0'' = Inr 0"
  by code_simp

text \<open>
  C10. \<open>compare_versions\<close> returns on every pair of strings, and what it returns is -1, 0
  or 1: no exception leaves it. A piece that \<open>int()\<close> rejects raises \<open>ValueError\<close>, which
  \<open>parse_version\<close> catches, returning the empty sequence.
\<close>

theorem compare_versions_total:
  "(compare_versions a b = Inr (- 1) \<or> compare_versions a b = Inr 0
      \<or> compare_versions a b = Inr 1)
   \<and> (list_ex (\<lambda>piece. isl (py_int piece)) (split_dot (strip_version a))
        \<longrightarrow> parse_version a = Inr [])"
proof -
  have "compare_versions a b = Inr (compare_from 0 (spec_parse a) (spec_parse b))"
    by (simp add: compare_versions_def parse_version_spec)
  then have first: "compare_versions a b = Inr (- 1) \<or> compare_versions a b = Inr 0
      \<or> compare_versions a b = Inr 1"
    using compare_from_range [of 0 "spec_parse a" "spec_parse b"] by auto
  have second: "list_ex (\<lambda>piece. isl (py_int piece)) (split_dot (strip_version a))
        \<longrightarrow> parse_version a = Inr []"
    by (simp add: parse_version_spec spec_parse_def Let_def list_ex_iff)
  from first second show ?thesis by blast
qed

theorem compare_versions_total_witness:
  "isl (py_int ''x'') \<and> parse_version ''1.x.3'' = Inr []
   \<and> compare_versions ''1.x.3'' ''1.0'' = Inr (- 1)"
proof -
  have pieces: "list_ex (\<lambda>piece. isl (py_int piece)) (split_dot (strip_version ''1.x.3''))"
    by code_simp
  have bad: "isl (py_int ''x'')" by code_simp
  have cmp: "compare_versions ''1.x.3'' ''1.0'' = Inr (- 1)" by code_simp
  from compare_versions_total [of "''1.x.3''" "''1.0''"] pieces bad cmp
  show ?thesis by blast
qed

section \<open>Properties of the local inventory reader and of release lookup\<close>



lemma first_matching_url_none:
  "list_all (\<lambda>a. \<forall>n. name a = Some n \<longrightarrow> \<not> rx_match pattern n) as
   \<Longrightarrow> first_matching_url pattern as = None"
  by (induction as) (auto simp: truthy_def split: option.splits)

lemma first_matching_url_first:
  "list_all (\<lambda>a. \<forall>n. name a = Some n \<longrightarrow> \<not> rx_match pattern n) before
   \<Longrightarrow> name a = Some n \<Longrightarrow> n \<noteq> [] \<Longrightarrow> rx_match pattern n
   \<Longrightarrow> first_matching_url pattern (before @ a # after) = browser_download_url a"
  by (induction before) (auto simp: truthy_def split: option.splits)

lemma luma_zip_pattern_nonempty: "rx_match luma_zip_pattern n \<Longrightarrow> n \<noteq> []"
proof -
  have "\<not> rx_match luma_zip_pattern []" by code_simp
  then show "rx_match luma_zip_pattern n \<Longrightarrow> n \<noteq> []" by auto
qed

lemma gm9_zip_pattern_nonempty: "rx_match gm9_zip_pattern n \<Longrightarrow> n \<noteq> []"
proof -
  have "\<not> rx_match gm9_zip_pattern []" by code_simp
  then show "rx_match gm9_zip_pattern n \<Longrightarrow> n \<noteq> []" by auto
qed

text \<open>
  C7. For an answer of the release host whose tag is present and starts with \<open>v\<close>: when no
  asset name matches the pattern of the component, the lookup returns no release
  information and the asset-not-found error; when assets match, the download address is
  taken from the first of them in list order, and it is returned with the version when it
  is a non-empty string. This holds for the Luma3DS and for the GodMode9 lookup.
\<close>

theorem release_lookup_first_asset:
  assumes "tag_name data = Some t" and "starts_with_v t"
  shows
    "(list_all (\<lambda>a. \<forall>n. name a = Some n \<longrightarrow> \<not> rx_match luma_zip_pattern n) (assets data)
        \<longrightarrow> get_latest_luma_release_info (Inr data) = (None, Some luma_asset_not_found))
     \<and> (list_all (\<lambda>a. \<forall>n. name a = Some n \<longrightarrow> \<not> rx_match gm9_zip_pattern n) (assets data)
        \<longrightarrow> get_latest_gm9_release_info (Inr data) = (None, Some gm9_asset_not_found))
     \<and> (assets data = before @ a # after
          \<and> list_all (\<lambda>a. \<forall>n. name a = Some n \<longrightarrow> \<not> rx_match luma_zip_pattern n) before
          \<and> name a = Some n \<and> rx_match luma_zip_pattern n
        \<longrightarrow> first_matching_url luma_zip_pattern (assets data) = browser_download_url a
            \<and> (browser_download_url a = Some u \<and> u \<noteq> []
                 \<longrightarrow> get_latest_luma_release_info (Inr data)
                       = (Some \<lparr>version = tl t, download_url = u\<rparr>, None)))
     \<and> (assets data = before @ a # after
          \<and> list_all (\<lambda>a. \<forall>n. name a = Some n \<longrightarrow> \<not> rx_match gm9_zip_pattern n) before
          \<and> name a = Some n \<and> rx_match gm9_zip_pattern n
        \<longrightarrow> first_matching_url gm9_zip_pattern (assets data) = browser_download_url a
            \<and> (browser_download_url a = Some u \<and> u \<noteq> []
                 \<longrightarrow> get_latest_gm9_release_info (Inr data)
                       = (Some \<lparr>version = tl t, download_url = u\<rparr>, None)))"
proof -
  have tag: "truthy (tag_name data)" "starts_with_v (the (tag_name data))"
    using assms by (auto simp: truthy_def starts_with_v_def split: list.splits)
  have p1: "list_all (\<lambda>a. \<forall>n. name a = Some n \<longrightarrow> \<not> rx_match luma_zip_pattern n) (assets data)
        \<longrightarrow> get_latest_luma_release_info (Inr data) = (None, Some luma_asset_not_found)"
    using tag
    by (auto simp: get_latest_luma_release_info_def Let_def truthy_def
        dest!: first_matching_url_none)
  have p2: "list_all (\<lambda>a. \<forall>n. name a = Some n \<longrightarrow> \<not> rx_match gm9_zip_pattern n) (assets data)
        \<longrightarrow> get_latest_gm9_release_info (Inr data) = (None, Some gm9_asset_not_found)"
    using tag
    by (auto simp: get_latest_gm9_release_info_def Let_def truthy_def
        dest!: first_matching_url_none)
  have p3: "first_matching_url luma_zip_pattern (assets data) = browser_download_url a
            \<and> (browser_download_url a = Some u \<and> u \<noteq> []
                 \<longrightarrow> get_latest_luma_release_info (Inr data)
                       = (Some \<lparr>version = tl t, download_url = u\<rparr>, None))"
    if h: "assets data = before @ a # after
          \<and> list_all (\<lambda>a. \<forall>n. name a = Some n \<longrightarrow> \<not> rx_match luma_zip_pattern n) before
          \<and> name a = Some n \<and> rx_match luma_zip_pattern n"
  proof -
    from h have "n \<noteq> []" by (auto dest: luma_zip_pattern_nonempty)
    with h have url: "first_matching_url luma_zip_pattern (assets data) = browser_download_url a"
      by (simp add: first_matching_url_first)
    then show ?thesis
      using tag assms(1)
      by (simp add: get_latest_luma_release_info_def Let_def truthy_def)
  qed
  have p4: "first_matching_url gm9_zip_pattern (assets data) = browser_download_url a
            \<and> (browser_download_url a = Some u \<and> u \<noteq> []
                 \<longrightarrow> get_latest_gm9_release_info (Inr data)
                       = (Some \<lparr>version = tl t, download_url = u\<rparr>, None))"
    if h: "assets data = before @ a # after
          \<and> list_all (\<lambda>a. \<forall>n. name a = Some n \<longrightarrow> \<not> rx_match gm9_zip_pattern n) before
          \<and> name a = Some n \<and> rx_match gm9_zip_pattern n"
  proof -
    from h have "n \<noteq> []" by (auto dest: gm9_zip_pattern_nonempty)
    with h have url: "first_matching_url gm9_zip_pattern (assets data) = browser_download_url a"
      by (simp add: first_matching_url_first)
    then show ?thesis
      using tag assms(1)
      by (simp add: get_latest_gm9_release_info_def Let_def truthy_def)
  qed
  from p1 p2 p3 p4 show ?thesis by blast
qed

theorem release_lookup_first_asset_witness:
  "get_latest_luma_release_info
     (Inr \<lparr>tag_name = Some ''v13.1.2'',
           assets = [\<lparr>name = Some ''notes.txt'', browser_download_url = Some ''https://h/n''\<rparr>,
                     \<lparr>name = Some ''Luma3DSv13.1.2.zip'',
                      browser_download_url = Some ''https://h/a''\<rparr>,
                     \<lparr>name = Some ''Luma3DSv13.1.2.zip.sig'',
                      browser_download_url = Some ''https://h/b''\<rparr>]\<rparr>)
     = (Some \<lparr>version = ''13.1.2'', download_url = ''https://h/a''\<rparr>, None)
   \<and> get_latest_gm9_release_info
     (Inr \<lparr>tag_name = Some ''v13.1.2'',
           assets = [\<lparr>name = Some ''notes.txt'', browser_download_url = Some ''https://h/n''\<rparr>,
                     \<lparr>name = Some ''Luma3DSv13.1.2.zip'',
                      browser_download_url = Some ''https://h/a''\<rparr>,
                     \<lparr>name = Some ''Luma3DSv13.1.2.zip.sig'',
                      browser_download_url = Some ''https://h/b''\<rparr>]\<rparr>)
     = (None, Some gm9_asset_not_found)"
proof -
  let ?a0 = "\<lparr>name = Some ''notes.txt'', browser_download_url = Some ''https://h/n''\<rparr>"
  let ?a1 = "\<lparr>name = Some ''Luma3DSv13.1.2.zip'', browser_download_url = Some ''https://h/a''\<rparr>"
  let ?a2 = "\<lparr>name = Some ''Luma3DSv13.1.2.zip.sig'',
              browser_download_url = Some ''https://h/b''\<rparr>"
  let ?data = "\<lparr>tag_name = Some ''v13.1.2'', assets = [?a0, ?a1, ?a2]\<rparr>"
  have tag: "tag_name ?data = Some ''v13.1.2''" "starts_with_v ''v13.1.2''"
    by (simp_all add: starts_with_v_def)
  have n0: "\<not> rx_match luma_zip_pattern ''notes.txt''" by code_simp
  have m1: "rx_match luma_zip_pattern ''Luma3DSv13.1.2.zip''" by code_simp
  have g0: "\<not> rx_match gm9_zip_pattern ''notes.txt''" by code_simp
  have g1: "\<not> rx_match gm9_zip_pattern ''Luma3DSv13.1.2.zip''" by code_simp
  have g2: "\<not> rx_match gm9_zip_pattern ''Luma3DSv13.1.2.zip.sig''" by code_simp
  have split: "assets ?data = [?a0] @ ?a1 # [?a2]" by simp
  have before: "list_all (\<lambda>a. \<forall>n. name a = Some n \<longrightarrow> \<not> rx_match luma_zip_pattern n) [?a0]"
    using n0 by simp
  have none: "list_all (\<lambda>a. \<forall>n. name a = Some n \<longrightarrow> \<not> rx_match gm9_zip_pattern n) (assets ?data)"
    using g0 g1 g2 by simp
  have nm: "name ?a1 = Some ''Luma3DSv13.1.2.zip''" by simp
  have url: "browser_download_url ?a1 = Some ''https://h/a'' \<and> ''https://h/a'' \<noteq> []" by simp
  from release_lookup_first_asset
         [OF tag, of "[?a0]" ?a1 "[?a2]" "''Luma3DSv13.1.2.zip''" "''https://h/a''"]
       split before none nm m1 url
  show ?thesis by simp
qed

section \<open>Properties of the progress events\<close>

lemma percents_simps:
  "percents [] = []"
  "percents (a @ b) = percents a @ percents b"
  "percents (emit cb (m, p, s)) = (if cb then [p] else [])"
  by (simp_all add: percents_def emit_def)

lemma statuses_simps:
  "statuses [] = []"
  "statuses (a @ b) = statuses a @ statuses b"
  "statuses (emit cb (m, p, s)) = (if cb then [s] else [])"
  by (simp_all add: statuses_def emit_def)

lemma steady_Nil: "steady lo hi []"
  by (simp add: steady_def percents_simps statuses_simps)

lemma steady_emit:
  "lo \<le> p \<Longrightarrow> p \<le> hi \<Longrightarrow> s \<noteq> ''error'' \<Longrightarrow> steady lo hi (emit cb (m, p, s))"
  by (simp add: steady_def percents_simps statuses_simps)

lemma steady_append:
  "steady a b e1 \<Longrightarrow> steady c d e2 \<Longrightarrow> a \<le> c \<Longrightarrow> b \<le> c \<Longrightarrow> b \<le> d
   \<Longrightarrow> steady a d (e1 @ e2)"
  unfolding steady_def percents_simps statuses_simps sorted_append
  by fastforce

lemma steady_widen:
  "steady a b e \<Longrightarrow> a' \<le> a \<Longrightarrow> b \<le> b' \<Longrightarrow> steady a' b' e"
  unfolding steady_def by fastforce

lemma without_errors_steady: "steady a b e \<Longrightarrow> without_errors e = e"
  unfolding steady_def without_errors_def statuses_def filter_id_conv by force

lemma download_events_unknown_length:
  "t \<le> 0 \<Longrightarrow> download_events fl cb t d cs = []"
  by (induction cs arbitrary: d) auto

lemma download_events_steady_from:
  assumes "rounding_ok fl" and "0 < t"
  shows "int (d + sum_list cs) \<le> t
         \<Longrightarrow> steady (scaled50 fl d t + 10) 60 (download_events fl cb t d cs)"
proof (induction cs arbitrary: d)
  case Nil
  then show ?case by (simp add: steady_Nil)
next
  case (Cons c cs)
  show ?case
  proof (cases "c = 0")
    case True
    with Cons show ?thesis by simp
  next
    case False
    have rest: "steady (scaled50 fl (d + c) t + 10) 60 (download_events fl cb t (d + c) cs)"
      using Cons.prems by (intro Cons.IH) (simp add: add.assoc)
    have mono: "scaled50 fl d t \<le> scaled50 fl (d + c) t"
      using assms unfolding rounding_ok_def by (meson le_add1)
    have "int (d + c) \<le> t" using Cons.prems by simp
    then have top: "scaled50 fl (d + c) t \<le> 50"
      using assms unfolding rounding_ok_def by (meson le_refl)
    have head: "steady (scaled50 fl d t + 10) (scaled50 fl (d + c) t + 10)
                 (if cb \<and> 0 < t then
                    [(''Downloaded: '' @ megabytes fl (int (d + c)) @ '' MB of ''
                        @ megabytes fl t @ '' MB'',
                      scaled50 fl (d + c) t + 10, ''info'')]
                  else [])"
      using mono by (auto simp: steady_def percents_def statuses_def)
    show ?thesis
      using False steady_append [OF head rest] mono top by simp
  qed
qed

lemma download_events_steady:
  assumes "rounding_ok fl" and "within_length f"
  shows "steady 10 60 (download_events fl cb (content_length f) 0 (chunks f))"
proof (cases "0 < content_length f")
  case False
  then show ?thesis by (simp add: download_events_unknown_length steady_Nil)
next
  case True
  with assms(2) have "int (0 + sum_list (chunks f)) \<le> content_length f"
    by (simp add: within_length_def)
  from download_events_steady_from [OF assms(1) True this]
  have "steady (scaled50 fl 0 (content_length f) + 10) 60
          (download_events fl cb (content_length f) 0 (chunks f))" .
  moreover have "0 \<le> scaled50 fl 0 (content_length f)"
    using assms(1) True unfolding rounding_ok_def by (meson le_refl)
  ultimately show ?thesis by (auto intro: steady_widen)
qed

lemma copy_boot_firm_steady: "steady 75 75 (fst (copy_boot_firm cb extracted d fs))"
  by (simp add: copy_boot_firm_def steady_emit)

lemma copy_boot_3dsx_steady: "steady 80 80 (fst (copy_boot_3dsx cb extracted d fs))"
  by (simp add: copy_boot_3dsx_def steady_emit)

lemma update_luma_config_steady: "steady 85 85 (fst (update_luma_config cb extracted d fs))"
  by (simp add: update_luma_config_def steady_emit split: sum.splits prod.splits)

lemma steady_upto: "steady a b e \<Longrightarrow> b \<le> b' \<Longrightarrow> steady a b' e"
  unfolding steady_def by fastforce

lemma luma_inject_steady: "steady 75 100 (fst (luma_inject cb extracted d fs))"
proof -
  have s1: "steady 75 75 ev1" if "copy_boot_firm cb extracted d fs = (ev1, r)" for ev1 r
    using copy_boot_firm_steady [of cb extracted d fs] that by simp
  have s2: "steady 80 80 ev2" if "copy_boot_3dsx cb extracted d fs1 = (ev2, r)" for ev2 r fs1
    using copy_boot_3dsx_steady [of cb extracted d fs1] that by simp
  have s3: "steady 85 85 ev3"
    if "update_luma_config cb extracted (d @ [''luma'', ''config'']) fs2 = (ev3, r)" for ev3 r fs2
    using update_luma_config_steady [of cb extracted "d @ [''luma'', ''config'']" fs2] that by simp
  have s4: "steady 100 100 (emit cb (''Luma3DS files successfully copied.'', 100, ''success''))"
    by (rule steady_emit) simp_all
  have a12: "steady 75 80 (ev1 @ ev2)" if "steady 75 75 ev1" "steady 80 80 ev2" for ev1 ev2
    using steady_append [OF that] by simp
  have a123: "steady 75 85 (ev1 @ ev2 @ ev3)"
    if "steady 75 75 ev1" "steady 80 80 ev2" "steady 85 85 ev3" for ev1 ev2 ev3
    using steady_append [OF that(1) steady_append [OF that(2,3)]] by simp
  have a1234: "steady 75 100 (ev1 @ ev2 @ ev3 @ ev4)"
    if "steady 75 75 ev1" "steady 80 80 ev2" "steady 85 85 ev3" "steady 100 100 ev4"
    for ev1 ev2 ev3 ev4
    using steady_append [OF that(1) steady_append [OF that(2) steady_append [OF that(3,4)]]]
    by simp
  show ?thesis
    unfolding luma_inject_def
    by (auto split: prod.splits sum.splits option.splits
        intro: steady_upto [OF s1] steady_upto [OF a12 [OF s1 s2]]
          steady_upto [OF a123 [OF s1 s2 s3]] a1234 [OF s1 s2 s3 s4])
qed

lemma luma_inject_result:
  "snd (snd (luma_inject cb extracted d fs)) = Inr r
   \<Longrightarrow> r = (True, ''Luma3DS update successful.'')"
  unfolding luma_inject_def
  by (auto split: prod.splits sum.splits option.splits)

lemma constant_sorted: "\<forall>p \<in> set xs. p = (c::int) \<Longrightarrow> sorted xs"
  by (induction xs) auto

lemma gm9_merge_events:
  "set (fst (gm9_merge cb extracted src dst items fs))
     \<subseteq> {(''Skipping gm9/scripts folder...'', 85, ''info'')}"
proof (induction items arbitrary: fs)
  case Nil
  then show ?case by simp
next
  case (Cons item items)
  have "fst (gm9_merge cb extracted src dst (item # items) fs) = []
        \<or> (\<exists>fs'. fst (gm9_merge cb extracted src dst (item # items) fs)
                  = fst (gm9_merge cb extracted src dst items fs'))
        \<or> fst (gm9_merge cb extracted src dst (item # items) fs)
            = emit cb (''Skipping gm9/scripts folder...'', 85, ''info'')
              @ fst (gm9_merge cb extracted src dst items fs)"
    by (simp add: Let_def case_prod_beta split: sum.splits) blast
  then consider
      (stop) "fst (gm9_merge cb extracted src dst (item # items) fs) = []"
    | (go) fs' where "fst (gm9_merge cb extracted src dst (item # items) fs)
                  = fst (gm9_merge cb extracted src dst items fs')"
    | (skip) "fst (gm9_merge cb extracted src dst (item # items) fs)
            = emit cb (''Skipping gm9/scripts folder...'', 85, ''info'')
              @ fst (gm9_merge cb extracted src dst items fs)"
    by blast
  then show ?case
  proof cases
    case stop
    then show ?thesis by (simp del: gm9_merge.simps)
  next
    case go
    then show ?thesis using Cons.IH [of fs'] by (simp del: gm9_merge.simps)
  next
    case skip
    have "set (emit cb (''Skipping gm9/scripts folder...'', 85, ''info''))
            \<subseteq> {(''Skipping gm9/scripts folder...'', 85, ''info'')}"
      by (cases cb) (simp_all add: emit_def)
    then show ?thesis using Cons.IH [of fs] skip by (simp del: gm9_merge.simps)
  qed
qed

lemma gm9_merge_steady:
  "steady 85 85 (fst (gm9_merge cb extracted src dst items fs))"
proof -
  let ?evs = "fst (gm9_merge cb extracted src dst items fs)"
  have all: "\<forall>ev \<in> set ?evs. ev = (''Skipping gm9/scripts folder...'', 85, ''info'')"
    using gm9_merge_events [of cb extracted src dst items fs] by auto
  then have p: "\<forall>p \<in> set (percents ?evs). p = 85"
    by (auto simp: percents_def)
  then have "sorted (percents ?evs)"
    by (rule constant_sorted)
  moreover have "''error'' \<notin> set (statuses ?evs)"
    using all by (auto simp: statuses_def)
  ultimately show ?thesis using p by (simp add: steady_def)
qed

lemma gm9_folder_update_steady:
  "steady 80 85 (fst (gm9_folder_update cb extracted d fs))"
proof -
  have e: "steady 80 80 (emit cb (''Updating gm9/ folder...'', 80, ''info''))"
    by (rule steady_emit) simp_all
  have m: "steady 85 85 ev"
    if "gm9_merge cb extracted [''gm9''] (d @ [''gm9'']) (listdir [''gm9''] extracted) fs' = (ev, r)"
    for ev r fs'
    using gm9_merge_steady [of cb extracted "[''gm9'']" "d @ [''gm9'']"
        "listdir [''gm9''] extracted" fs'] that by simp
  have em: "steady 80 85 (emit cb (''Updating gm9/ folder...'', 80, ''info'') @ ev)"
    if "steady 85 85 ev" for ev
    using steady_append [OF e that] by simp
  show ?thesis
    unfolding gm9_folder_update_def
    by (auto split: prod.splits sum.splits
        intro: steady_Nil steady_upto [OF e] em [OF m])
qed

lemma gm9_inject_steady: "steady 75 100 (fst (gm9_inject cb extracted d fs))"
proof -
  have e1: "steady 75 75 (emit cb (''Copying GodMode9.firm...'', 75, ''info''))"
    by (rule steady_emit) simp_all
  have e2: "steady 80 85 ev" if "gm9_folder_update cb extracted d fs2 = (ev, r)" for ev r fs2
    using gm9_folder_update_steady [of cb extracted d fs2] that by simp
  have e3: "steady 100 100 (emit cb (''GodMode9 files successfully copied.'', 100, ''success''))"
    by (rule steady_emit) simp_all
  have a12: "steady 75 85 (emit cb (''Copying GodMode9.firm...'', 75, ''info'') @ ev)"
    if "steady 80 85 ev" for ev
    using steady_append [OF e1 that] by simp
  have a123: "steady 75 100 (emit cb (''Copying GodMode9.firm...'', 75, ''info'') @ ev
                @ emit cb (''GodMode9 files successfully copied.'', 100, ''success''))"
    if "steady 80 85 ev" for ev
    using steady_append [OF e1 steady_append [OF that e3]] by simp
  show ?thesis
    unfolding gm9_inject_def Let_def
    by (auto split: prod.splits sum.splits option.splits
        intro: steady_Nil steady_upto [OF e1] steady_upto [OF a12 [OF e2]] a123 [OF e2])
qed

lemma after_start_steady:
  assumes "steady 10 60 dl"
  shows "steady 10 100 (emit cb (m1, 10, ''info'') @ dl)"
proof -
  have e10: "steady 10 10 (emit cb (m1, 10, ''info''))" by (rule steady_emit) simp_all
  from steady_append [OF e10 assms] show ?thesis by (auto intro: steady_upto)
qed

lemma after_download_steady:
  assumes "steady 10 60 dl"
  shows "steady 10 100 (emit cb (m1, 10, ''info'') @ dl @ emit cb (m2, 60, ''info''))"
proof -
  have e10: "steady 10 10 (emit cb (m1, 10, ''info''))" by (rule steady_emit) simp_all
  have e60: "steady 60 60 (emit cb (m2, 60, ''info''))" by (rule steady_emit) simp_all
  have u1: "steady 10 60 (dl @ emit cb (m2, 60, ''info''))"
    using steady_append [OF assms e60] by simp
  from steady_append [OF e10 u1] show ?thesis by (auto intro: steady_upto)
qed

lemma after_extract_steady:
  assumes "steady 10 60 dl" and "steady 75 100 rest"
  shows "steady 10 100
           (emit cb (m1, 10, ''info'') @ dl @ emit cb (m2, 60, ''info'')
              @ emit cb (m3, 70, ''info'') @ rest)"
proof -
  have e10: "steady 10 10 (emit cb (m1, 10, ''info''))" by (rule steady_emit) simp_all
  have e60: "steady 60 60 (emit cb (m2, 60, ''info''))" by (rule steady_emit) simp_all
  have e70: "steady 70 70 (emit cb (m3, 70, ''info''))" by (rule steady_emit) simp_all
  have t1: "steady 70 100 (emit cb (m3, 70, ''info'') @ rest)"
    using steady_append [OF e70 assms(2)] by simp
  have t2: "steady 60 100 (emit cb (m2, 60, ''info'') @ emit cb (m3, 70, ''info'') @ rest)"
    using steady_append [OF e60 t1] by simp
  have t3: "steady 10 100 (dl @ emit cb (m2, 60, ''info'') @ emit cb (m3, 70, ''info'') @ rest)"
    using steady_append [OF assms(1) t2] by simp
  from steady_append [OF e10 t3] show ?thesis by simp
qed

lemma luma_try_steady:
  assumes "rounding_ok fl" and "within_length f"
  shows "steady 10 100 (fst (luma_try fl fs d f cb))"
proof -
  note dl = download_events_steady [OF assms, of cb]
  have after: "steady 75 100 ev" if "luma_inject cb extracted d fs = (ev, r)" for ev r extracted
    using luma_inject_steady [of cb extracted d fs] that by simp
  show ?thesis
    unfolding luma_try_def Let_def
    by (auto split: prod.splits sum.splits option.splits
        intro: after_start_steady [OF dl] after_download_steady [OF dl]
          after_extract_steady [OF dl after])
qed

lemma gm9_try_steady:
  assumes "rounding_ok fl" and "within_length f"
  shows "steady 10 100 (fst (gm9_try fl fs d f cb))"
proof -
  note dl = download_events_steady [OF assms, of cb]
  have after: "steady 75 100 ev" if "gm9_inject cb extracted d fs = (ev, r)" for ev r extracted
    using gm9_inject_steady [of cb extracted d fs] that by simp
  show ?thesis
    unfolding gm9_try_def Let_def
    by (auto split: prod.splits sum.splits option.splits
        intro: after_start_steady [OF dl] after_download_steady [OF dl]
          after_extract_steady [OF dl after])
qed

lemma started_steady:
  "steady 10 100 ev \<Longrightarrow> steady 0 100 (emit cb (m, 0, ''info'') @ ev)"
proof -
  assume a: "steady 10 100 ev"
  have "steady 0 0 (emit cb (m, 0, ''info''))" by (rule steady_emit) simp_all
  from steady_append [OF this a] show ?thesis by simp
qed

lemma steady_no_error: "steady a b e \<Longrightarrow> ev \<in> set e \<Longrightarrow> snd (snd ev) \<noteq> ''error''"
  unfolding steady_def statuses_def by force

lemma orderly_steady: "steady a b e \<Longrightarrow> orderly e \<and> sorted (percents e)"
proof -
  assume a: "steady a b e"
  then have "sorted (percents e)" by (simp add: steady_def)
  then show ?thesis
    using steady_no_error [OF a] by (auto simp: orderly_def without_errors_steady [OF a])
qed

lemma orderly_with_error:
  "steady a b e \<Longrightarrow> orderly (e @ emit cb (m, 0, ''error''))"
proof -
  assume a: "steady a b e"
  have "without_errors (e @ emit cb (m, 0, ''error'')) = e"
    using without_errors_steady [OF a] by (simp add: without_errors_def emit_def)
  moreover have "sorted (percents e)" using a by (simp add: steady_def)
  ultimately show ?thesis
    using steady_no_error [OF a] by (auto simp: orderly_def emit_def)
qed

text \<open>
  C6, as the code has it. With the bytes received within the advertised content length,
  the percent values of one update, the error events left out, never decrease, and every
  error event carries percent 0; an update that returns success has no error event, so
  its percent values never decrease. The percent values of one dump never decrease.
\<close>

theorem progress_percent_order:
  assumes "rounding_ok fl" and "within_length f"
  shows
    "(case download_and_inject_luma_update fl fs d f cb of
        (evs, fs', ok, msg) \<Rightarrow> orderly evs \<and> (ok \<longrightarrow> sorted (percents evs)))
     \<and> (case download_and_inject_gm9_update fl fs d f cb of
        (evs, fs', ok, msg) \<Rightarrow> orderly evs \<and> (ok \<longrightarrow> sorted (percents evs)))
     \<and> sorted (percents (fst (dump_file cb fs d src dst)))"
proof -
  have luma: "steady 0 100
                (emit cb (''Starting Luma3DS update process...'', 0, ''info'') @ ev)"
    if "luma_try fl fs d f cb = (ev, r)" for ev r
    using luma_try_steady [OF assms, of fs d cb] that by (simp add: started_steady)
  have gm9: "steady 0 100
                (emit cb (''Starting GodMode9 update process...'', 0, ''info'') @ ev)"
    if "gm9_try fl fs d f cb = (ev, r)" for ev r
    using gm9_try_steady [OF assms, of fs d cb] that by (simp add: started_steady)
  have p1: "case download_and_inject_luma_update fl fs d f cb of
        (evs, fs', ok, msg) \<Rightarrow> orderly evs \<and> (ok \<longrightarrow> sorted (percents evs))"
    unfolding download_and_inject_luma_update_def Let_def
    using orderly_steady [OF luma] orderly_with_error [OF luma, of _ _ cb]
    by (auto split: prod.splits sum.splits exn.splits simp del: append_assoc
        simp add: append_assoc [symmetric])
  have p2: "case download_and_inject_gm9_update fl fs d f cb of
        (evs, fs', ok, msg) \<Rightarrow> orderly evs \<and> (ok \<longrightarrow> sorted (percents evs))"
    unfolding download_and_inject_gm9_update_def Let_def
    using orderly_steady [OF gm9] orderly_with_error [OF gm9, of _ _ cb]
    by (auto split: prod.splits sum.splits exn.splits simp del: append_assoc
        simp add: append_assoc [symmetric])
  have p3: "sorted (percents (fst (dump_file cb fs d src dst)))"
    unfolding dump_file_def Let_def
    by (cases cb) (simp_all add: percents_simps split: sum.splits)
  from p1 p2 p3 show ?thesis by blast
qed

lemma exact_rounding_ok: "rounding_ok exact_rounding"
proof -
  have main: "0 \<le> (50 * int d) div t \<and> (50 * int d) div t \<le> (50 * int d') div t
        \<and> (int d' \<le> t \<longrightarrow> (50 * int d') div t \<le> 50)"
    if "0 < t \<and> d \<le> d'" for d d' :: nat and t :: int
  proof -
    from that have pos: "0 < t" and le: "d \<le> d'" by simp_all
    have a: "0 \<le> (50 * int d) div t"
      using pos by (simp add: pos_imp_zdiv_nonneg_iff)
    have b: "(50 * int d) div t \<le> (50 * int d') div t"
      using pos le by (intro zdiv_mono1) simp_all
    have c: "(50 * int d') div t \<le> 50" if "int d' \<le> t"
    proof -
      have "(50 * int d') div t \<le> (50 * t) div t"
        using that pos by (intro zdiv_mono1) simp_all
      also have "\<dots> = 50" using pos by simp
      finally show ?thesis .
    qed
    from a b c show ?thesis by blast
  qed
  show ?thesis
    unfolding rounding_ok_def exact_rounding_def rounding.simps
    using main by blast
qed

theorem progress_percent_order_witness:
  "rounding_ok exact_rounding
   \<and> within_length \<lparr>content_length = 10, chunks = [4, 0, 6], broken = None,
                      archive = Inr (Dir [(''README.md'', File ''r'')])\<rparr>
   \<and> download_and_inject_luma_update exact_rounding (Dir [(''E:'', Dir [])]) [''E:'']
        \<lparr>content_length = 10, chunks = [4, 0, 6], broken = None,
         archive = Inr (Dir [(''README.md'', File ''r'')])\<rparr> False
       = ([], Dir [(''E:'', Dir [])], True, ''Luma3DS update successful.'')
   \<and> sorted (percents (fst (download_and_inject_luma_update exact_rounding
        (Dir [(''E:'', Dir [])]) [''E:'']
        \<lparr>content_length = 10, chunks = [4, 0, 6], broken = None,
         archive = Inr (Dir [(''README.md'', File ''r'')])\<rparr> True)))
   \<and> percents (fst (download_and_inject_luma_update exact_rounding
        (Dir [(''E:'', Dir [])]) [''E:'']
        \<lparr>content_length = 10, chunks = [4, 0, 6], broken = None,
         archive = Inr (Dir [(''README.md'', File ''r'')])\<rparr> True))
       = [0, 10, 30, 60, 60, 70, 75, 80, 85, 100]"
proof -
  let ?ar = "Dir [(''README.md'', File ''r'')]"
  let ?dev = "Dir [(''E:'', Dir [])]"
  let ?f = "\<lparr>content_length = 10, chunks = [4, 0, 6], broken = None, archive = Inr ?ar\<rparr>"
  have w: "within_length ?f" by (simp add: within_length_def)
  have s1: "copy_boot_firm cb ?ar [''E:''] ?dev
              = (emit cb (''Warning: '' @ quoted ''boot.firm''
                          @ '' not found in extracted Luma archive.'', 75, ''warning''),
                 Inr ?dev)" for cb
    by (simp add: copy_boot_firm_def path_exists_def)
  have s2: "copy_boot_3dsx cb ?ar [''E:''] ?dev
              = (emit cb (''Warning: '' @ quoted ''boot.3dsx''
                          @ '' not found in extracted Luma archive.'', 80, ''warning''),
                 Inr ?dev)" for cb
    by (simp add: copy_boot_3dsx_def path_exists_def)
  have s3: "update_luma_config cb ?ar [''E:'', ''luma'', ''config''] ?dev
              = (emit cb (''Warning: Luma/config folder not found in release.'', 85,
                          ''warning''), ?dev, None)" for cb
    by (simp add: update_luma_config_def isdir_def)
  have inj: "luma_inject cb ?ar [''E:''] ?dev
      = (emit cb (''Warning: '' @ quoted ''boot.firm''
                          @ '' not found in extracted Luma archive.'', 75, ''warning'')
         @ emit cb (''Warning: '' @ quoted ''boot.3dsx''
                          @ '' not found in extracted Luma archive.'', 80, ''warning'')
         @ emit cb (''Warning: Luma/config folder not found in release.'', 85, ''warning'')
         @ emit cb (''Luma3DS files successfully copied.'', 100, ''success''),
         ?dev, Inr (True, ''Luma3DS update successful.''))" for cb
    by (simp add: luma_inject_def s1 s2 s3)
  have quiet: "download_and_inject_luma_update exact_rounding ?dev [''E:''] ?f False
       = ([], ?dev, True, ''Luma3DS update successful.'')"
    by (simp add: download_and_inject_luma_update_def luma_try_def inj emit_def)
  have pc: "percents (fst (download_and_inject_luma_update exact_rounding ?dev [''E:''] ?f True))
       = [0, 10, 30, 60, 60, 70, 75, 80, 85, 100]"
    by (simp add: download_and_inject_luma_update_def luma_try_def inj emit_def percents_def
        exact_rounding_def)
  have ok: "fst (snd (snd (download_and_inject_luma_update exact_rounding ?dev [''E:''] ?f True)))"
    by (simp add: download_and_inject_luma_update_def luma_try_def inj)
  have "sorted (percents (fst (download_and_inject_luma_update exact_rounding ?dev [''E:''] ?f True)))"
    using progress_percent_order [OF exact_rounding_ok w, of ?dev "[''E:'']" True] ok
    by (simp add: case_prod_beta)
  with exact_rounding_ok w quiet pc show ?thesis by blast
qed

text \<open>
  The claim C6 as it is written fails on a failure path: a request that fails after the
  event at 10 percent is followed by the error event, which carries 0 percent.
\<close>

theorem error_event_resets_percent:
  "percents (fst (download_and_inject_luma_update exact_rounding
      (Dir [(''E:'', Dir [])]) [''E:'']
      \<lparr>content_length = 0, chunks = [], broken = Some (RequestException ''timed out''),
       archive = Inl (BadZipFile [])\<rparr> True))
     = [0, 10, 0]
   \<and> \<not> sorted (percents (fst (download_and_inject_luma_update exact_rounding
      (Dir [(''E:'', Dir [])]) [''E:'']
      \<lparr>content_length = 0, chunks = [], broken = Some (RequestException ''timed out''),
       archive = Inl (BadZipFile [])\<rparr> True)))"
proof -
  have "percents (fst (download_and_inject_luma_update exact_rounding
      (Dir [(''E:'', Dir [])]) [''E:'']
      \<lparr>content_length = 0, chunks = [], broken = Some (RequestException ''timed out''),
       archive = Inl (BadZipFile [])\<rparr> True))
     = [0, 10, 0]"
    by (simp add: download_and_inject_luma_update_def luma_try_def emit_def percents_def)
  then show ?thesis by simp
qed

section \<open>Failure and error events\<close>

lemma luma_try_result: "snd (snd (luma_try fl fs d f cb)) = Inr r \<Longrightarrow> fst r"
proof -
  assume a: "snd (snd (luma_try fl fs d f cb)) = Inr r"
  show "fst r"
  proof (cases "broken f")
    case (Some e)
    with a show ?thesis by (simp add: luma_try_def)
  next
    case None
    show ?thesis
    proof (cases "archive f")
      case (Inl e)
      with a None show ?thesis by (simp add: luma_try_def)
    next
      case (Inr extracted)
      with a None have "snd (snd (luma_inject cb extracted d fs)) = Inr r"
        by (simp add: luma_try_def case_prod_beta)
      from luma_inject_result [OF this] show ?thesis by simp
    qed
  qed
qed

text \<open>
  The Luma3DS update returns failure only through one of its three handlers, and each of
  them emits an error event first.
\<close>

lemma luma_failure_emits_error:
  assumes "download_and_inject_luma_update fl fs d f True = (evs, fs', False, msg)"
  shows "''error'' \<in> set (statuses evs)"
proof -
  obtain ev fs1 r where t: "luma_try fl fs d f True = (ev, fs1, r)"
    by (cases "luma_try fl fs d f True") auto
  show ?thesis
  proof (cases r)
    case (Inr res)
    with t have "fst res" using luma_try_result [of fl fs d f True res] by simp
    with assms t Inr show ?thesis
      by (auto simp: download_and_inject_luma_update_def Let_def)
  next
    case (Inl e)
    with assms t show ?thesis
      by (cases e) (auto simp: download_and_inject_luma_update_def Let_def statuses_simps)
  qed
qed

text \<open>
  C4 fails for the GodMode9 update. With an archive that holds no \<open>GodMode9.firm\<close> the
  function returns failure and a message through the early \<open>return\<close>, and the callback
  has received four events, none of them an error event.
\<close>

theorem gm9_missing_firm_without_error_event:
  "download_and_inject_gm9_update exact_rounding (Dir [(''E:'', Dir [])]) [''E:'']
      \<lparr>content_length = 0, chunks = [4], broken = None,
       archive = Inr (Dir [(''README.md'', File ''r'')])\<rparr> True
     = ([(''Starting GodMode9 update process...'', 0, ''info''),
         (''Downloading GodMode9...'', 10, ''info''),
         (''GodMode9 archive downloaded.'', 60, ''info''),
         (''GodMode9 archive extracted.'', 70, ''info'')],
        Dir [(''E:'', Dir [(''luma'', Dir [(''payloads'', Dir [])])])],
        False,
        ''Error: '' @ quoted ''GodMode9.firm''
          @ '' not found in the extracted GodMode9 archive.'')
   \<and> ''error'' \<notin> set (statuses
        [(''Starting GodMode9 update process...'', 0, ''info''),
         (''Downloading GodMode9...'', 10, ''info''),
         (''GodMode9 archive downloaded.'', 60, ''info''),
         (''GodMode9 archive extracted.'', 70, ''info'')])"
proof -
  have mk: "makedirs [''E:'', ''luma'', ''payloads''] (Dir [(''E:'', Dir [])])
              = Inr (Dir [(''E:'', Dir [(''luma'', Dir [(''payloads'', Dir [])])])])"
    by simp
  have wf: "walk_find ''GodMode9.firm'' (Dir [(''README.md'', File ''r'')]) = None"
    by simp
  have inj: "gm9_inject True (Dir [(''README.md'', File ''r'')]) [''E:''] (Dir [(''E:'', Dir [])])
      = ([], Dir [(''E:'', Dir [(''luma'', Dir [(''payloads'', Dir [])])])],
         Inr (False, ''Error: '' @ quoted ''GodMode9.firm''
                      @ '' not found in the extracted GodMode9 archive.''))"
    by (simp add: gm9_inject_def mk wf)
  have tr: "gm9_try exact_rounding (Dir [(''E:'', Dir [])]) [''E:'']
      \<lparr>content_length = 0, chunks = [4], broken = None,
       archive = Inr (Dir [(''README.md'', File ''r'')])\<rparr> True
      = ([(''Downloading GodMode9...'', 10, ''info''),
         (''GodMode9 archive downloaded.'', 60, ''info''),
         (''GodMode9 archive extracted.'', 70, ''info'')],
         Dir [(''E:'', Dir [(''luma'', Dir [(''payloads'', Dir [])])])],
         Inr (False, ''Error: '' @ quoted ''GodMode9.firm''
                      @ '' not found in the extracted GodMode9 archive.''))"
    by (simp add: gm9_try_def inj emit_def)
  have run: "download_and_inject_gm9_update exact_rounding (Dir [(''E:'', Dir [])]) [''E:'']
      \<lparr>content_length = 0, chunks = [4], broken = None,
       archive = Inr (Dir [(''README.md'', File ''r'')])\<rparr> True
     = ([(''Starting GodMode9 update process...'', 0, ''info''),
         (''Downloading GodMode9...'', 10, ''info''),
         (''GodMode9 archive downloaded.'', 60, ''info''),
         (''GodMode9 archive extracted.'', 70, ''info'')],
        Dir [(''E:'', Dir [(''luma'', Dir [(''payloads'', Dir [])])])],
        False,
        ''Error: '' @ quoted ''GodMode9.firm''
          @ '' not found in the extracted GodMode9 archive.'')"
    by (simp add: download_and_inject_gm9_update_def tr emit_def)
  have "''error'' \<notin> set (statuses
        [(''Starting GodMode9 update process...'', 0, ''info''),
         (''Downloading GodMode9...'', 10, ''info''),
         (''GodMode9 archive downloaded.'', 60, ''info''),
         (''GodMode9 archive extracted.'', 70, ''info'')])"
    by (simp add: statuses_def)
  with run show ?thesis by blast
qed

section \<open>Properties of the file-system operations\<close>

lemma diverge_sym: "diverge p q \<Longrightarrow> diverge q p"
  by (induction p q rule: diverge.induct) auto

lemma diverge_append: "diverge p q \<Longrightarrow> diverge (p @ r) (q @ s)"
  by (induction p q rule: diverge.induct) auto

lemma diverge_prefix: "diverge (d @ p) (d @ q) = diverge p q"
  by (induction d) auto

lemma diverge_extend_left: "diverge p q \<Longrightarrow> diverge (p @ r) q"
  using diverge_append [of p q r "[]"] by simp

lemma diverge_names: "diverge (d @ [x]) (d @ [y]) = (x \<noteq> y)"
  by (simp add: diverge_prefix)

lemma lookup_put_diverge: "diverge p q \<Longrightarrow> lookup q (put p new fs) = lookup q fs"
proof (induction p new fs arbitrary: q rule: put.induct)
  case (1 new n)
  then show ?case by simp
next
  case (2 x new n)
  then obtain y ys where q: "q = y # ys" and ne: "x \<noteq> y"
    by (cases q) auto
  then show ?case
    by (cases n) (simp_all add: update_conv')
next
  case (3 x y ys new n)
  from "3.prems" obtain z zs where q: "q = z # zs" and d: "x \<noteq> z \<or> diverge (y # ys) zs"
    by (cases q) auto
  show ?case
  proof (cases n)
    case (File c)
    then show ?thesis by simp
  next
    case (Dir es)
    show ?thesis
    proof (cases "map_of es x")
      case None
      with Dir show ?thesis by simp
    next
      case (Some c)
      show ?thesis
      proof (cases "x = z")
        case True
        with d have "diverge (y # ys) zs" by simp
        from "3.IH" [OF Dir Some this] Dir Some True q show ?thesis
          by (simp add: update_conv')
      next
        case False
        with Dir Some q show ?thesis by (simp add: update_conv')
      qed
    qed
  qed
qed

lemma lookup_remove_diverge: "diverge p q \<Longrightarrow> lookup q (remove p fs) = lookup q fs"
proof (induction p fs arbitrary: q rule: remove.induct)
  case (1 n)
  then show ?case by simp
next
  case (2 x n)
  then obtain y ys where q: "q = y # ys" and ne: "x \<noteq> y"
    by (cases q) auto
  then show ?case
    by (cases n) (simp_all add: delete_conv')
next
  case (3 x y ys n)
  from "3.prems" obtain z zs where q: "q = z # zs" and d: "x \<noteq> z \<or> diverge (y # ys) zs"
    by (cases q) auto
  show ?case
  proof (cases n)
    case (File c)
    then show ?thesis by simp
  next
    case (Dir es)
    show ?thesis
    proof (cases "map_of es x")
      case None
      with Dir show ?thesis by simp
    next
      case (Some c)
      show ?thesis
      proof (cases "x = z")
        case True
        with d have "diverge (y # ys) zs" by simp
        from "3.IH" [OF Dir Some this] Dir Some True q show ?thesis
          by (simp add: update_conv')
      next
        case False
        with Dir Some q show ?thesis by (simp add: update_conv')
      qed
    qed
  qed
qed

lemma lookup_makedirs_diverge:
  "makedirs p fs = Inr fs' \<Longrightarrow> diverge p q \<Longrightarrow> lookup q fs' = lookup q fs"
proof (induction p arbitrary: fs fs' q)
  case Nil
  then show ?case by simp
next
  case (Cons x xs)
  from Cons.prems(2) obtain z zs where q: "q = z # zs" and d: "x \<noteq> z \<or> diverge xs zs"
    by (cases q) auto
  from Cons.prems(1) obtain es where n: "fs = Dir es"
    by (cases fs) auto
  let ?c = "case map_of es x of None \<Rightarrow> Dir [] | Some c \<Rightarrow> c"
  from Cons.prems(1) n obtain c' where m: "makedirs xs ?c = Inr c'"
      and fs': "fs' = Dir (AList.update x c' es)"
    by (auto split: sum.splits)
  show ?case
  proof (cases "x = z")
    case False
    with n fs' q show ?thesis by (simp add: update_conv')
  next
    case True
    with d have dv: "diverge xs zs" by simp
    then obtain w ws where zs: "zs = w # ws"
      by (cases xs; cases zs) auto
    from Cons.IH [OF m dv] have "lookup zs c' = lookup zs ?c" .
    with n fs' q True zs show ?thesis
      by (simp add: update_conv' split: option.splits)
  qed
qed

lemma makedirs_isdir: "makedirs p fs = Inr fs' \<Longrightarrow> isdir p fs'"
proof (induction p arbitrary: fs fs')
  case Nil
  then show ?case by (cases fs) (auto simp: isdir_def)
next
  case (Cons x xs)
  from Cons.prems obtain es where n: "fs = Dir es"
    by (cases fs) auto
  let ?c = "case map_of es x of None \<Rightarrow> Dir [] | Some c \<Rightarrow> c"
  from Cons.prems n obtain c' where m: "makedirs xs ?c = Inr c'"
      and fs': "fs' = Dir (AList.update x c' es)"
    by (auto split: sum.splits)
  from Cons.IH [OF m] fs' show ?case
    by (simp add: isdir_def update_conv')
qed

lemma makedirs_existing: "isdir p fs \<Longrightarrow> makedirs p fs = Inr fs"
proof (induction p arbitrary: fs)
  case Nil
  then show ?case by (cases fs) (auto simp: isdir_def)
next
  case (Cons x xs)
  from Cons.prems obtain es c where n: "fs = Dir es" and c: "map_of es x = Some c"
      and sub: "isdir xs c"
    by (cases fs) (auto simp: isdir_def split: option.splits)
  from Cons.IH [OF sub] n c show ?case
    by (simp add: update_triv)
qed

lemma lookup_put_existing:
  "lookup p fs \<noteq> None \<Longrightarrow> lookup p (put p new fs) = Some new"
proof (induction p new fs rule: put.induct)
  case (1 new n)
  then show ?case by simp
next
  case (2 x new n)
  then show ?case by (cases n) (simp_all add: update_conv')
next
  case (3 x y ys new n)
  then show ?case
    by (cases n) (auto simp: update_conv' split: option.splits)
qed

lemma lookup_put_new:
  "p \<noteq> [] \<Longrightarrow> isdir (butlast p) fs \<Longrightarrow> lookup p (put p new fs) = Some new"
proof (induction p new fs rule: put.induct)
  case (1 new n)
  then show ?case by simp
next
  case (2 x new n)
  then show ?case by (cases n) (simp_all add: update_conv' isdir_def)
next
  case (3 x y ys new n)
  then show ?case
    by (cases n) (auto simp: update_conv' isdir_def split: option.splits)
qed

lemma write_file_frame:
  "write_file p c fs = Inr fs' \<Longrightarrow> diverge p q \<Longrightarrow> lookup q fs' = lookup q fs"
  by (auto simp: write_file_def lookup_put_diverge split: if_splits)

lemma write_file_result:
  "write_file p c fs = Inr fs' \<Longrightarrow> lookup p fs' = Some (File c)"
  by (auto simp: write_file_def lookup_put_new split: if_splits)

lemma copy2_frame:
  "copy2 same from src dst fs = Inr fs' \<Longrightarrow> diverge dst q \<Longrightarrow> lookup q fs' = lookup q fs"
proof -
  assume a: "copy2 same from src dst fs = Inr fs'" and d: "diverge dst q"
  let ?dst = "if isdir dst fs then join_name dst (basename src) else dst"
  have "diverge ?dst q"
    using d by (auto simp: join_name_def diverge_extend_left)
  moreover from a obtain c where "write_file ?dst c fs = Inr fs'"
    by (auto simp: copy2_def Let_def split: if_splits option.splits node.splits)
  ultimately show ?thesis by (rule write_file_frame [rotated])
qed

lemma copy2_result:
  "copy2 same from src dst fs = Inr fs' \<Longrightarrow> \<not> isdir dst fs
   \<Longrightarrow> lookup dst fs' = lookup src from \<and> isfile src from"
  by (auto simp: copy2_def Let_def isfile_def write_file_result
      split: if_splits option.splits node.splits)

lemma rmtree_frame:
  "rmtree p fs = Inr fs' \<Longrightarrow> diverge p q \<Longrightarrow> lookup q fs' = lookup q fs"
  by (auto simp: rmtree_def lookup_remove_diverge split: option.splits node.splits)

lemma copytree_frame:
  "copytree from src dst fs = Inr fs' \<Longrightarrow> diverge dst q \<Longrightarrow> lookup q fs' = lookup q fs"
  by (auto simp: copytree_def lookup_put_diverge lookup_makedirs_diverge
      split: option.splits node.splits if_splits sum.splits)

lemma copytree_result:
  "copytree from src dst fs = Inr fs' \<Longrightarrow> lookup dst fs' = lookup src from"
proof -
  assume a: "copytree from src dst fs = Inr fs'"
  then obtain es fs1 where s: "lookup src from = Some (Dir es)"
      and m: "makedirs dst fs = Inr fs1" and r: "fs' = put dst (Dir es) fs1"
    by (auto simp: copytree_def split: option.splits node.splits if_splits sum.splits)
  from makedirs_isdir [OF m] have "lookup dst fs1 \<noteq> None"
    by (auto simp: isdir_def split: option.splits)
  from lookup_put_existing [OF this] r s show ?thesis by simp
qed

lemma merge_item_frame:
  "diverge (dst @ [item]) q \<Longrightarrow> lookup q (fst (merge_item extracted src dst item fs)) = lookup q fs"
  by (auto simp: merge_item_def rmtree_frame copytree_frame copy2_frame
      split: sum.splits if_splits)

lemma merge_item_result:
  assumes "merge_item extracted src dst item fs = (fs1, None)"
    and "isdir (src @ [item]) extracted
         \<or> isfile (src @ [item]) extracted \<and> \<not> isdir (dst @ [item]) fs"
  shows "lookup (dst @ [item]) fs1 = lookup (src @ [item]) extracted"
proof (cases "isdir (src @ [item]) extracted")
  case True
  with assms(1) obtain fs0 where "copytree extracted (src @ [item]) (dst @ [item]) fs0 = Inr fs1"
    by (auto simp: merge_item_def split: sum.splits if_splits)
  then show ?thesis by (rule copytree_result)
next
  case False
  with assms(2) have f: "isfile (src @ [item]) extracted" and nd: "\<not> isdir (dst @ [item]) fs"
    by simp_all
  with False assms(1) have "copy2 False extracted (src @ [item]) (dst @ [item]) fs = Inr fs1"
    by (auto simp: merge_item_def split: sum.splits)
  from copy2_result [OF this nd] show ?thesis by simp
qed

lemma gm9_merge_step:
  "item \<noteq> ''scripts'' \<Longrightarrow>
   gm9_merge cb extracted src dst (item # rest) fs =
     (case merge_item extracted src dst item fs of
        (fs1, Some e) \<Rightarrow> ([], fs1, Some e)
      | (fs1, None) \<Rightarrow> gm9_merge cb extracted src dst rest fs1)"
  by (simp add: merge_item_def Let_def split: sum.splits)

lemma gm9_merge_skip:
  "gm9_merge cb extracted src dst (''scripts'' # rest) fs =
     (case gm9_merge cb extracted src dst rest fs of
        (ev, fs', r) \<Rightarrow> (emit cb (''Skipping gm9/scripts folder...'', 85, ''info'') @ ev, fs', r))"
  by simp

lemma gm9_merge_frame:
  "(\<And>item. item \<in> set items \<Longrightarrow> item \<noteq> ''scripts'' \<Longrightarrow> diverge (dst @ [item]) q)
   \<Longrightarrow> lookup q (fst (snd (gm9_merge cb extracted src dst items fs))) = lookup q fs"
proof (induction items arbitrary: fs)
  case Nil
  then show ?case by simp
next
  case (Cons item rest)
  have ih: "lookup q (fst (snd (gm9_merge cb extracted src dst rest fs1))) = lookup q fs1" for fs1
    using Cons.prems by (intro Cons.IH) simp_all
  show ?case
  proof (cases "item = ''scripts''")
    case True
    then show ?thesis
      using ih [of fs] by (simp only: gm9_merge_skip) (simp add: case_prod_beta)
  next
    case False
    then have dv: "diverge (dst @ [item]) q" using Cons.prems by simp
    obtain fs1 r where m: "merge_item extracted src dst item fs = (fs1, r)"
      by (cases "merge_item extracted src dst item fs") auto
    from merge_item_frame [OF dv, of extracted src fs] m have f1: "lookup q fs1 = lookup q fs"
      by simp
    show ?thesis
      using ih [of fs1] f1 m by (cases r) (simp_all only: gm9_merge_step [OF False], simp_all)
  qed
qed

lemma gm9_merge_replaced:
  assumes "distinct items"
    and "gm9_merge cb extracted src dst items fs = (ev, fs', None)"
    and "item \<in> set items" and "item \<noteq> ''scripts''"
    and "isdir (src @ [item]) extracted
         \<or> isfile (src @ [item]) extracted \<and> \<not> isdir (dst @ [item]) fs"
  shows "lookup (dst @ [item]) fs' = lookup (src @ [item]) extracted"
  using assms
proof (induction items arbitrary: fs ev)
  case Nil
  then show ?case by simp
next
  case (Cons head rest)
  show ?case
  proof (cases "head = ''scripts''")
    case True
    with Cons.prems(3,4) have mem: "item \<in> set rest" by auto
    from Cons.prems(2) True obtain ev1 where
      "gm9_merge cb extracted src dst rest fs = (ev1, fs', None)"
      by (simp only: gm9_merge_skip) (auto split: prod.splits)
    from Cons.IH [OF _ this mem Cons.prems(4,5)] Cons.prems(1) show ?thesis by simp
  next
    case False
    obtain fs1 r where m: "merge_item extracted src dst head fs = (fs1, r)"
      by (cases "merge_item extracted src dst head fs") auto
    from Cons.prems(2) m have r: "r = None"
      by (cases r) (simp_all only: gm9_merge_step [OF False], simp_all)
    with Cons.prems(2) m have rest: "gm9_merge cb extracted src dst rest fs1 = (ev, fs', None)"
      by (simp only: gm9_merge_step [OF False]) simp
    show ?thesis
    proof (cases "head = item")
      case True
      from merge_item_result [OF m [unfolded r]] Cons.prems(5) True
      have at: "lookup (dst @ [item]) fs1 = lookup (src @ [item]) extracted" by simp
      have "lookup (dst @ [item]) (fst (snd (gm9_merge cb extracted src dst rest fs1)))
              = lookup (dst @ [item]) fs1"
      proof (rule gm9_merge_frame)
        fix i assume "i \<in> set rest"
        with Cons.prems(1) True have "i \<noteq> item" by auto
        then show "diverge (dst @ [i]) (dst @ [item])" by (simp add: diverge_names)
      qed
      with rest at show ?thesis by simp
    next
      case False
      with Cons.prems(3) have mem: "item \<in> set rest" by auto
      from False have "diverge (dst @ [head]) (dst @ [item])" by (simp add: diverge_names)
      from merge_item_frame [OF this, of extracted src fs] m
      have "lookup (dst @ [item]) fs1 = lookup (dst @ [item]) fs" by simp
      then have "isdir (dst @ [item]) fs1 = isdir (dst @ [item]) fs"
        by (simp add: isdir_def)
      with Cons.prems(5)
      have c: "isdir (src @ [item]) extracted
         \<or> isfile (src @ [item]) extracted \<and> \<not> isdir (dst @ [item]) fs1" by simp
      from Cons.IH [OF _ rest mem Cons.prems(4) c] Cons.prems(1) show ?thesis by simp
    qed
  qed
qed

section \<open>The merge of the gm9 folder\<close>

lemma isdir_frame: "lookup q fs' = lookup q fs \<Longrightarrow> isdir q fs' = isdir q fs"
  by (simp add: isdir_def)

lemma gm9_folder_update_scripts:
  assumes "isdir (d @ [''gm9'']) fs"
  shows "lookup (d @ [''gm9'', ''scripts'']) (fst (snd (gm9_folder_update cb extracted d fs)))
           = lookup (d @ [''gm9'', ''scripts'']) fs"
proof (cases "isdir [''gm9''] extracted")
  case False
  then show ?thesis by (simp add: gm9_folder_update_def)
next
  case True
  have "lookup ((d @ [''gm9'']) @ [''scripts''])
          (fst (snd (gm9_merge cb extracted [''gm9''] (d @ [''gm9''])
                       (listdir [''gm9''] extracted) fs)))
        = lookup ((d @ [''gm9'']) @ [''scripts'']) fs"
    by (rule gm9_merge_frame) (simp add: diverge_prefix)
  with True makedirs_existing [OF assms] show ?thesis
    by (simp add: gm9_folder_update_def case_prod_beta)
qed

lemma gm9_folder_update_replaced:
  assumes "isdir (d @ [''gm9'']) fs"
    and "distinct (listdir [''gm9''] extracted)"
    and "gm9_folder_update cb extracted d fs = (ev, fs', None)"
    and "item \<in> set (listdir [''gm9''] extracted)" and "item \<noteq> ''scripts''"
    and "isdir [''gm9'', item] extracted
         \<or> isfile [''gm9'', item] extracted \<and> \<not> isdir (d @ [''gm9'', item]) fs"
  shows "lookup (d @ [''gm9'', item]) fs' = lookup [''gm9'', item] extracted"
proof -
  from assms(4) have dir: "isdir [''gm9''] extracted"
    by (auto simp: listdir_def isdir_def split: option.splits node.splits)
  with assms(3) makedirs_existing [OF assms(1)] obtain ev1 where
    m: "gm9_merge cb extracted [''gm9''] (d @ [''gm9'']) (listdir [''gm9''] extracted) fs
          = (ev1, fs', None)"
    by (auto simp: gm9_folder_update_def split: prod.splits)
  from assms(6) have c: "isdir ([''gm9''] @ [item]) extracted
         \<or> isfile ([''gm9''] @ [item]) extracted \<and> \<not> isdir ((d @ [''gm9'']) @ [item]) fs"
    by simp
  from gm9_merge_replaced [OF assms(2) m assms(4,5) c] show ?thesis by simp
qed

text \<open>
  What \<open>gm9_inject\<close> has done when it ends: nothing, or the payload directory only, or
  the payload directory, the copy of \<open>GodMode9.firm\<close> and the update of the folder.
\<close>

lemma gm9_inject_cases:
  assumes "gm9_inject cb extracted d fs = (ev, fs', r)"
  shows "(fs' = fs \<and> r \<noteq> Inr (True, ''GodMode9 update successful.''))
         \<or> (makedirs (d @ [''luma'', ''payloads'']) fs = Inr fs'
              \<and> r \<noteq> Inr (True, ''GodMode9 update successful.''))
         \<or> (\<exists>fs1 fs2 src ev2 r2.
               makedirs (d @ [''luma'', ''payloads'']) fs = Inr fs1
               \<and> copy2 False extracted src (d @ [''luma'', ''payloads'', ''GodMode9.firm'']) fs1
                   = Inr fs2
               \<and> gm9_folder_update cb extracted d fs2 = (ev2, fs', r2)
               \<and> (r = Inr (True, ''GodMode9 update successful.'') \<longrightarrow> r2 = None))"
  using assms unfolding gm9_inject_def Let_def
  by (auto split: sum.splits option.splits prod.splits)

lemma gm9_inject_success:
  "gm9_inject cb extracted d fs = (ev, fs', Inr (True, msg))
   \<Longrightarrow> msg = ''GodMode9 update successful.''"
  unfolding gm9_inject_def Let_def
  by (auto split: sum.splits option.splits prod.splits)

lemma gm9_inject_frame:
  assumes "diverge (d @ [''luma'', ''payloads'']) q"
    and "makedirs (d @ [''luma'', ''payloads'']) fs = Inr fs1"
    and "copy2 False extracted src (d @ [''luma'', ''payloads'', ''GodMode9.firm'']) fs1 = Inr fs2"
  shows "lookup q fs2 = lookup q fs"
proof -
  have "diverge (d @ [''luma'', ''payloads'', ''GodMode9.firm'']) q"
    using diverge_extend_left [OF assms(1), of "[''GodMode9.firm'']"] by simp
  from copy2_frame [OF assms(3) this] lookup_makedirs_diverge [OF assms(2,1)]
  show ?thesis by simp
qed

lemma gm9_inject_scripts:
  assumes "isdir (d @ [''gm9'']) fs" and "gm9_inject cb extracted d fs = (ev, fs', r)"
  shows "lookup (d @ [''gm9'', ''scripts'']) fs' = lookup (d @ [''gm9'', ''scripts'']) fs"
proof -
  have dv: "diverge (d @ [''luma'', ''payloads'']) (d @ [''gm9'', ''scripts''])"
    and dg: "diverge (d @ [''luma'', ''payloads'']) (d @ [''gm9''])"
    by (simp_all add: diverge_prefix)
  from gm9_inject_cases [OF assms(2)] consider
      (none) "fs' = fs"
    | (dirs) "makedirs (d @ [''luma'', ''payloads'']) fs = Inr fs'"
    | (all) fs1 fs2 src ev2 r2 where
        "makedirs (d @ [''luma'', ''payloads'']) fs = Inr fs1"
        "copy2 False extracted src (d @ [''luma'', ''payloads'', ''GodMode9.firm'']) fs1 = Inr fs2"
        "gm9_folder_update cb extracted d fs2 = (ev2, fs', r2)"
    by blast
  then show ?thesis
  proof cases
    case none
    then show ?thesis by simp
  next
    case dirs
    from lookup_makedirs_diverge [OF dirs dv] show ?thesis .
  next
    case all
    from gm9_inject_frame [OF dg all(1,2)] assms(1) have "isdir (d @ [''gm9'']) fs2"
      by (simp add: isdir_def)
    from gm9_folder_update_scripts [OF this, of cb extracted] all(3)
    have "lookup (d @ [''gm9'', ''scripts'']) fs' = lookup (d @ [''gm9'', ''scripts'']) fs2"
      by simp
    with gm9_inject_frame [OF dv all(1,2)] show ?thesis by simp
  qed
qed

lemma gm9_inject_replaced:
  assumes "isdir (d @ [''gm9'']) fs"
    and "gm9_inject cb extracted d fs = (ev, fs', Inr (True, ''GodMode9 update successful.''))"
    and "distinct (listdir [''gm9''] extracted)"
    and "item \<in> set (listdir [''gm9''] extracted)" and "item \<noteq> ''scripts''"
    and "isdir [''gm9'', item] extracted
         \<or> isfile [''gm9'', item] extracted \<and> \<not> isdir (d @ [''gm9'', item]) fs"
  shows "lookup (d @ [''gm9'', item]) fs' = lookup [''gm9'', item] extracted"
proof -
  have di: "diverge (d @ [''luma'', ''payloads'']) (d @ [''gm9'', item])"
    and dg: "diverge (d @ [''luma'', ''payloads'']) (d @ [''gm9''])"
    by (simp_all add: diverge_prefix)
  from gm9_inject_cases [OF assms(2)] obtain fs1 fs2 src ev2 where
    a: "makedirs (d @ [''luma'', ''payloads'']) fs = Inr fs1"
    "copy2 False extracted src (d @ [''luma'', ''payloads'', ''GodMode9.firm'']) fs1 = Inr fs2"
    "gm9_folder_update cb extracted d fs2 = (ev2, fs', None)"
    by auto
  from gm9_inject_frame [OF dg a(1,2)] assms(1) have g: "isdir (d @ [''gm9'']) fs2"
    by (simp add: isdir_def)
  from gm9_inject_frame [OF di a(1,2)]
  have "isdir (d @ [''gm9'', item]) fs2 = isdir (d @ [''gm9'', item]) fs"
    by (simp add: isdir_def)
  with assms(6) have c: "isdir [''gm9'', item] extracted
         \<or> isfile [''gm9'', item] extracted \<and> \<not> isdir (d @ [''gm9'', item]) fs2" by simp
  from gm9_folder_update_replaced [OF g assms(3) a(3) assms(4,5) c] show ?thesis .
qed

lemma gm9_try_cases:
  assumes "gm9_try fl fs d f cb = (ev, fs', r)"
  shows "(fs' = fs \<and> isl r)
         \<or> (\<exists>extracted ev1. archive f = Inr extracted
               \<and> gm9_inject cb extracted d fs = (ev1, fs', r))"
  using assms unfolding gm9_try_def Let_def
  by (auto split: sum.splits option.splits prod.splits)

lemma gm9_update_cases:
  assumes "download_and_inject_gm9_update fl fs d f cb = (evs, fs', ok, msg)"
  shows "(fs' = fs \<and> \<not> ok)
         \<or> (\<exists>extracted ev1 r. archive f = Inr extracted
               \<and> gm9_inject cb extracted d fs = (ev1, fs', r)
               \<and> (ok \<longrightarrow> r = Inr (True, ''GodMode9 update successful.'')))"
proof -
  obtain ev fs1 r where t: "gm9_try fl fs d f cb = (ev, fs1, r)"
    by (cases "gm9_try fl fs d f cb") auto
  from assms t have fs1: "fs1 = fs'"
    by (auto simp: download_and_inject_gm9_update_def Let_def split: sum.splits exn.splits)
  from assms t have ok: "ok \<Longrightarrow> r = Inr (ok, msg)"
    by (auto simp: download_and_inject_gm9_update_def Let_def split: sum.splits exn.splits)
  from assms t have bad: "isl r \<Longrightarrow> \<not> ok"
    by (auto simp: download_and_inject_gm9_update_def Let_def split: sum.splits exn.splits)
  from gm9_try_cases [OF t] fs1 consider
      (early) "fs' = fs" "isl r"
    | (run) extracted ev1 where "archive f = Inr extracted"
        "gm9_inject cb extracted d fs = (ev1, fs', r)"
    by auto
  then show ?thesis
  proof cases
    case early
    with bad show ?thesis by simp
  next
    case run
    have "r = Inr (True, ''GodMode9 update successful.'')" if ok
    proof -
      from ok [OF that] that have r: "r = Inr (True, msg)" by simp
      from gm9_inject_success [OF run(2) [unfolded r]] r show ?thesis by simp
    qed
    with run show ?thesis by blast
  qed
qed


text \<open>
  C1. For a GodMode9 update over a device whose \<open>gm9\<close> folder exists: the \<open>scripts\<close> folder
  with all it contains is after the update what it was before, on every path of the
  function. When the update returns success, every other directory of the archive's
  \<open>gm9\<close> folder is at the destination exactly the archive's directory (nothing of the old
  directory is left), and every other file of the archive's \<open>gm9\<close> folder is at the
  destination with the archive's content, unless the destination has a directory of that
  name. The names that \<open>os.listdir\<close> gives are distinct.
\<close>

theorem gm9_update_merge:
  assumes "isdir (d @ [''gm9'']) fs"
    and "download_and_inject_gm9_update fl fs d f cb = (evs, fs', ok, msg)"
  shows
    "lookup (d @ [''gm9'', ''scripts'']) fs' = lookup (d @ [''gm9'', ''scripts'']) fs
     \<and> (\<forall>extracted item.
           ok \<and> archive f = Inr extracted \<and> distinct (listdir [''gm9''] extracted)
             \<and> item \<in> set (listdir [''gm9''] extracted) \<and> item \<noteq> ''scripts'' \<longrightarrow>
           (isdir [''gm9'', item] extracted \<longrightarrow>
              lookup (d @ [''gm9'', item]) fs' = lookup [''gm9'', item] extracted)
           \<and> (isfile [''gm9'', item] extracted \<and> \<not> isdir (d @ [''gm9'', item]) fs \<longrightarrow>
              lookup (d @ [''gm9'', item]) fs' = lookup [''gm9'', item] extracted))"
proof -
  from gm9_update_cases [OF assms(2)] consider
      (early) "fs' = fs" "\<not> ok"
    | (run) extracted ev1 r where "archive f = Inr extracted"
        "gm9_inject cb extracted d fs = (ev1, fs', r)"
        "ok \<longrightarrow> r = Inr (True, ''GodMode9 update successful.'')"
    by blast
  then show ?thesis
  proof cases
    case early
    then show ?thesis by simp
  next
    case run
    have scripts: "lookup (d @ [''gm9'', ''scripts'']) fs' = lookup (d @ [''gm9'', ''scripts'']) fs"
      by (rule gm9_inject_scripts [OF assms(1) run(2)])
    have rest: "lookup (d @ [''gm9'', item]) fs' = lookup [''gm9'', item] extracted"
      if "ok" "distinct (listdir [''gm9''] extracted)"
        "item \<in> set (listdir [''gm9''] extracted)" "item \<noteq> ''scripts''"
        "isdir [''gm9'', item] extracted
         \<or> isfile [''gm9'', item] extracted \<and> \<not> isdir (d @ [''gm9'', item]) fs"
      for item
    proof -
      from run(3) that(1) have "gm9_inject cb extracted d fs
          = (ev1, fs', Inr (True, ''GodMode9 update successful.''))"
        using run(2) by simp
      from gm9_inject_replaced [OF assms(1) this that(2,3,4,5)] show ?thesis .
    qed
    from scripts rest run(1) show ?thesis by auto
  qed
qed

theorem gm9_update_merge_witness:
  "isdir [''E:'', ''gm9'']
     (Dir [(''E:'', Dir [(''gm9'', Dir [(''scripts'', Dir [(''mine.gm9'', File ''u'')]),
                                        (''support'', Dir [(''old'', File ''o'')]),
                                        (''a.txt'', File ''1'')])])])
   \<and> download_and_inject_gm9_update exact_rounding
       (Dir [(''E:'', Dir [(''gm9'', Dir [(''scripts'', Dir [(''mine.gm9'', File ''u'')]),
                                          (''support'', Dir [(''old'', File ''o'')]),
                                          (''a.txt'', File ''1'')])])])
       [''E:'']
       \<lparr>content_length = 0, chunks = [], broken = None,
        archive = Inr (Dir [(''GodMode9.firm'', File ''F''),
                            (''gm9'', Dir [(''scripts'', Dir [(''x'', File ''n'')]),
                                           (''support'', Dir [(''new'', File ''n'')]),
                                           (''a.txt'', File ''2'')])])\<rparr>
       False
     = ([],
        Dir [(''E:'', Dir [(''gm9'', Dir [(''scripts'', Dir [(''mine.gm9'', File ''u'')]),
                                          (''a.txt'', File ''2''),
                                          (''support'', Dir [(''new'', File ''n'')])]),
                           (''luma'', Dir [(''payloads'',
                                            Dir [(''GodMode9.firm'', File ''F'')])])])],
        True, ''GodMode9 update successful.'')
   \<and> lookup [''E:'', ''gm9'', ''scripts'']
       (Dir [(''E:'', Dir [(''gm9'', Dir [(''scripts'', Dir [(''mine.gm9'', File ''u'')]),
                                          (''a.txt'', File ''2''),
                                          (''support'', Dir [(''new'', File ''n'')])]),
                           (''luma'', Dir [(''payloads'',
                                            Dir [(''GodMode9.firm'', File ''F'')])])])])
     = Some (Dir [(''mine.gm9'', File ''u'')])
   \<and> lookup [''E:'', ''gm9'', ''support'']
       (Dir [(''E:'', Dir [(''gm9'', Dir [(''scripts'', Dir [(''mine.gm9'', File ''u'')]),
                                          (''a.txt'', File ''2''),
                                          (''support'', Dir [(''new'', File ''n'')])]),
                           (''luma'', Dir [(''payloads'',
                                            Dir [(''GodMode9.firm'', File ''F'')])])])])
     = Some (Dir [(''new'', File ''n'')])"
proof -
  let ?dev = "Dir [(''E:'', Dir [(''gm9'', Dir [(''scripts'', Dir [(''mine.gm9'', File ''u'')]),
                                        (''support'', Dir [(''old'', File ''o'')]),
                                        (''a.txt'', File ''1'')])])]"
  let ?gm9 = "Dir [(''scripts'', Dir [(''mine.gm9'', File ''u'')]),
                   (''support'', Dir [(''old'', File ''o'')]),
                   (''a.txt'', File ''1'')]"
  let ?dev1 = "Dir [(''E:'', Dir [(''gm9'', ?gm9), (''luma'', Dir [(''payloads'', Dir [])])])]"
  let ?dev2 = "Dir [(''E:'', Dir [(''gm9'', ?gm9),
                     (''luma'', Dir [(''payloads'', Dir [(''GodMode9.firm'', File ''F'')])])])]"
  let ?out = "Dir [(''E:'', Dir [(''gm9'', Dir [(''scripts'', Dir [(''mine.gm9'', File ''u'')]),
                                          (''a.txt'', File ''2''),
                                          (''support'', Dir [(''new'', File ''n'')])]),
                           (''luma'', Dir [(''payloads'',
                                            Dir [(''GodMode9.firm'', File ''F'')])])])]"
  let ?ar = "Dir [(''GodMode9.firm'', File ''F''),
                  (''gm9'', Dir [(''scripts'', Dir [(''x'', File ''n'')]),
                                 (''support'', Dir [(''new'', File ''n'')]),
                                 (''a.txt'', File ''2'')])]"
  let ?f = "\<lparr>content_length = 0, chunks = [], broken = None, archive = Inr ?ar\<rparr>"
  have pre: "isdir [''E:'', ''gm9''] ?dev" by (simp add: isdir_def)
  have mk: "makedirs [''E:'', ''luma'', ''payloads''] ?dev = Inr ?dev1" by simp
  have wf: "walk_find ''GodMode9.firm'' ?ar = Some [''GodMode9.firm'']" by simp
  have cp: "copy2 False ?ar [''GodMode9.firm''] [''E:'', ''luma'', ''payloads'', ''GodMode9.firm'']
              ?dev1 = Inr ?dev2"
    by (simp add: copy2_def write_file_def isdir_def)
  have mg: "gm9_merge False ?ar [''gm9''] [''E:'', ''gm9''] [''scripts'', ''support'', ''a.txt'']
              ?dev2 = ([], ?out, None)"
    by (simp add: isdir_def isfile_def path_exists_def rmtree_def copytree_def copy2_def
        write_file_def emit_def)
  have fu: "gm9_folder_update False ?ar [''E:''] ?dev2 = ([], ?out, None)"
    using mg by (simp add: gm9_folder_update_def isdir_def listdir_def emit_def)
  have inj: "gm9_inject False ?ar [''E:''] ?dev
               = ([], ?out, Inr (True, ''GodMode9 update successful.''))"
    using mk wf cp fu by (simp add: gm9_inject_def emit_def)
  have tr: "gm9_try exact_rounding ?dev [''E:''] ?f False
               = ([], ?out, Inr (True, ''GodMode9 update successful.''))"
    using inj by (simp add: gm9_try_def emit_def)
  have run: "download_and_inject_gm9_update exact_rounding ?dev [''E:''] ?f False
               = ([], ?out, True, ''GodMode9 update successful.'')"
    using tr by (simp add: download_and_inject_gm9_update_def emit_def)
  from gm9_update_merge [OF _ run] pre
  have all: "lookup [''E:'', ''gm9'', ''scripts''] ?out = lookup [''E:'', ''gm9'', ''scripts''] ?dev
     \<and> (\<forall>extracted item.
           True \<and> archive ?f = Inr extracted \<and> distinct (listdir [''gm9''] extracted)
             \<and> item \<in> set (listdir [''gm9''] extracted) \<and> item \<noteq> ''scripts'' \<longrightarrow>
           (isdir [''gm9'', item] extracted \<longrightarrow>
              lookup ([''E:''] @ [''gm9'', item]) ?out = lookup [''gm9'', item] extracted)
           \<and> (isfile [''gm9'', item] extracted \<and> \<not> isdir ([''E:''] @ [''gm9'', item]) ?dev \<longrightarrow>
              lookup ([''E:''] @ [''gm9'', item]) ?out = lookup [''gm9'', item] extracted))"
    by simp
  from all have s: "lookup [''E:'', ''gm9'', ''scripts''] ?out = Some (Dir [(''mine.gm9'', File ''u'')])"
    by simp
  have side: "archive ?f = Inr ?ar \<and> distinct (listdir [''gm9''] ?ar)
             \<and> ''support'' \<in> set (listdir [''gm9''] ?ar) \<and> ''support'' \<noteq> ''scripts''
             \<and> isdir [''gm9'', ''support''] ?ar"
    by (simp add: listdir_def isdir_def)
  from all [THEN conjunct2, rule_format, of ?ar "''support''"] side
  have "lookup ([''E:''] @ [''gm9'', ''support'']) ?out = lookup [''gm9'', ''support''] ?ar"
    by blast
  then have t: "lookup [''E:'', ''gm9'', ''support''] ?out = Some (Dir [(''new'', File ''n'')])"
    by simp
  from pre run s t show ?thesis by blast
qed

section \<open>The dump batch\<close>

lemma diverge_neq: "diverge p q \<Longrightarrow> p \<noteq> q"
  by (induction p q rule: diverge.induct) auto

lemma lookup_below_empty: "lookup (x # xs) (Dir []) = None"
  by simp

lemma isdir_put_below: "isdir p fs \<Longrightarrow> isdir p (put (p @ x # xs) new fs)"
proof (induction p arbitrary: fs)
  case Nil
  then show ?case
    by (cases fs; cases xs) (auto simp: isdir_def split: option.splits)
next
  case (Cons a p)
  from Cons.prems obtain es c where n: "fs = Dir es" and c: "map_of es a = Some c"
      and sub: "isdir p c"
    by (cases fs) (auto simp: isdir_def split: option.splits)
  obtain y ys where t: "p @ x # xs = y # ys"
    by (cases p) auto
  from Cons.IH [OF sub] have "isdir p (put (p @ x # xs) new c)" .
  with n c t show ?case
    by (simp add: isdir_def update_conv')
qed

lemma lookup_makedirs_below:
  "makedirs p fs = Inr fs' \<Longrightarrow> lookup (p @ x # xs) fs' = lookup (p @ x # xs) fs"
proof (induction p arbitrary: fs fs')
  case Nil
  then show ?case by (cases fs) auto
next
  case (Cons a p)
  from Cons.prems obtain es where n: "fs = Dir es"
    by (cases fs) auto
  let ?c = "case map_of es a of None \<Rightarrow> Dir [] | Some c \<Rightarrow> c"
  from Cons.prems n obtain c' where m: "makedirs p ?c = Inr c'"
      and fs': "fs' = Dir (AList.update a c' es)"
    by (auto split: sum.splits)
  obtain y ys where t: "p @ x # xs = y # ys"
    by (cases p) auto
  from Cons.IH [OF m] have "lookup (p @ x # xs) c' = lookup (p @ x # xs) ?c" .
  with n fs' t show ?case
    by (auto simp: update_conv' split: option.splits)
qed

text \<open>
  \<open>dump_file\<close> on a file system where the destination folder exists: the folder is left
  in place and the call returns.
\<close>

lemma dump_file_missing:
  assumes "isdir target fs" and "\<not> path_exists (d @ p) fs"
  shows "dump_file False fs d p target
           = ([], fs, Inr (False, ''Error: Source file '' @ quoted (path_text (d @ p))
                                  @ '' not found.''))"
  using assms makedirs_existing [OF assms(1)]
  by (simp add: dump_file_def Let_def emit_def)

lemma dump_file_present:
  assumes "isdir target fs" and "lookup (d @ p) fs = Some (File c)"
    and "basename p \<noteq> []" and "\<not> isdir (target @ [basename p]) fs"
    and "diverge d target"
  shows "dump_file False fs d p target
           = ([], put (target @ [basename p]) (File c) fs,
              Inr (True, ''File '' @ quoted (basename p) @ '' successfully dumped to ''
                         @ quoted (path_text (target @ [basename p])) @ ''.''))"
proof -
  have ne: "d @ p \<noteq> target @ [basename p]"
    using diverge_append [OF assms(5), of p "[basename p]"] by (rule diverge_neq)
  have c2: "copy2 True fs (d @ p) (target @ [basename p]) fs
              = Inr (put (target @ [basename p]) (File c) fs)"
    using assms ne by (simp add: copy2_def Let_def write_file_def path_exists_def)
  show ?thesis
    using assms(2,3) makedirs_existing [OF assms(1)] c2
    by (simp add: dump_file_def Let_def emit_def join_name_def path_exists_def)
qed

lemma dump_file_returns:
  assumes "makedirs target fs = Inr fs0"
  shows "\<exists>ev fs' ok msg. dump_file cb fs d p target = (ev, fs', Inr (ok, msg))
           \<and> isdir target fs'"
proof -
  have t0: "isdir target fs0" by (rule makedirs_isdir [OF assms])
  let ?name = "basename p"
  let ?dst = "join_name target ?name"
  show ?thesis
  proof (cases "copy2 True fs0 (d @ p) ?dst fs0")
    case (Inl e)
    with assms t0 show ?thesis
      by (auto simp: dump_file_def Let_def)
  next
    case (Inr fs2)
    let ?dst' = "if isdir ?dst fs0 then join_name ?dst (basename (d @ p)) else ?dst"
    from Inr obtain c where w: "write_file ?dst' c fs0 = Inr fs2"
      by (auto simp: copy2_def Let_def split: if_splits option.splits node.splits)
    have "?dst' = target \<or> (\<exists>x xs. ?dst' = target @ x # xs)"
      by (auto simp: join_name_def)
    then have "isdir target fs2"
    proof
      assume "?dst' = target"
      with w t0 show ?thesis by (simp add: write_file_def)
    next
      assume "\<exists>x xs. ?dst' = target @ x # xs"
      then obtain x xs where e: "?dst' = target @ x # xs" by blast
      from w have "fs2 = put ?dst' (File c) fs0"
        by (auto simp: write_file_def split: if_splits)
      with e isdir_put_below [OF t0, of x xs "File c"] show ?thesis by simp
    qed
    with assms t0 Inr show ?thesis
      by (auto simp: dump_file_def Let_def)
  qed
qed

lemma isfile_frame: "lookup q fs' = lookup q fs \<Longrightarrow> isfile q fs' = isfile q fs"
  by (simp add: isfile_def)

lemma dump_file_from_created:
  assumes "makedirs target fs = Inr fs0"
  shows "dump_file cb fs d p target = dump_file cb fs0 d p target"
  using assms makedirs_existing [OF makedirs_isdir [OF assms]]
  by (simp add: dump_file_def)

lemma dump_loop_from_created:
  assumes "makedirs target fs = Inr fs0" and "files \<noteq> []"
  shows "dump_loop fs d target files k ms = dump_loop fs0 d target files k ms"
proof -
  from assms(2) obtain p n rest where f: "files = (p, n) # rest"
    by (cases files) auto
  show ?thesis
    unfolding f by (simp add: dump_file_from_created [OF assms(1)])
qed

text \<open>Every selected file is attempted, whatever the earlier attempts returned.\<close>

lemma dump_loop_total:
  assumes "makedirs target fs = Inr fs0"
  shows "\<exists>fs' n msgs. dump_loop fs d target files k ms = (fs', Inr (n, msgs))
           \<and> length msgs = length ms + length files \<and> k \<le> n \<and> n \<le> k + length files"
  using assms
proof (induction files arbitrary: fs fs0 k ms)
  case Nil
  then show ?case by simp
next
  case (Cons f rest)
  obtain p n where f: "f = (p, n)" by (cases f) auto
  from dump_file_returns [OF Cons.prems, of False d p]
  obtain ev fs1 ok msg where r: "dump_file False fs d p target = (ev, fs1, Inr (ok, msg))"
      and t: "isdir target fs1"
    by blast
  from Cons.IH [OF makedirs_existing [OF t],
      of "if ok then Suc k else k" "ms @ [n @ '': '' @ msg]"]
  obtain fs' m msgs where
    "dump_loop fs1 d target rest (if ok then Suc k else k) (ms @ [n @ '': '' @ msg])
       = (fs', Inr (m, msgs))"
    "length msgs = length (ms @ [n @ '': '' @ msg]) + length rest"
    "(if ok then Suc k else k) \<le> m" "m \<le> (if ok then Suc k else k) + length rest"
    by blast
  then show ?case
    unfolding f using r by (auto split: if_splits)
qed

text \<open>
  The loop on a file system where the destination folder exists and lies apart from the
  device, every source is missing or a regular file, the file names are distinct and
  not empty, and the folder holds no directory under one of them: the counter grows by
  the number of sources present, and each of them is at the destination with the content
  of the source.
\<close>

lemma dump_loop_counts:
  assumes "isdir target cur" and "diverge d target"
    and "\<forall>f \<in> set files. basename (fst f) \<noteq> []
           \<and> (lookup (d @ fst f) cur = None \<or> isfile (d @ fst f) cur)
           \<and> \<not> isdir (target @ [basename (fst f)]) cur"
    and "distinct (map (\<lambda>f. basename (fst f)) files)"
  shows "\<exists>fs' msgs.
           dump_loop cur d target files k ms
             = (fs', Inr (k + length (filter (\<lambda>f. isfile (d @ fst f) cur) files), msgs))
           \<and> (\<forall>f \<in> set files. isfile (d @ fst f) cur \<longrightarrow>
                 lookup (target @ [basename (fst f)]) fs' = lookup (d @ fst f) cur)
           \<and> (\<forall>q. diverge target q \<longrightarrow> lookup q fs' = lookup q cur)
           \<and> (\<forall>b. b \<notin> set (map (\<lambda>f. basename (fst f)) files) \<longrightarrow>
                 lookup (target @ [b]) fs' = lookup (target @ [b]) cur)"
  using assms
proof (induction files arbitrary: cur k ms)
  case Nil
  then show ?case by simp
next
  case (Cons f rest)
  obtain p n where f: "f = (p, n)" by (cases f) auto
  let ?b = "basename p"
  from Cons.prems(3) f have b: "?b \<noteq> []"
      and src: "lookup (d @ p) cur = None \<or> isfile (d @ p) cur"
      and free: "\<not> isdir (target @ [?b]) cur"
    by auto
  from Cons.prems(4) f have fresh: "?b \<notin> set (map (\<lambda>f. basename (fst f)) rest)"
      and dist: "distinct (map (\<lambda>f. basename (fst f)) rest)"
    by auto
  have apart: "diverge target (d @ x)" for x
    using diverge_append [OF diverge_sym [OF Cons.prems(2)], of "[]" x] by simp
  show ?case
  proof (cases "lookup (d @ p) cur")
    case None
    then have absent: "\<not> isfile (d @ p) cur" "\<not> path_exists (d @ p) cur"
      by (simp_all add: isfile_def path_exists_def)
    have rest_ok: "\<forall>f \<in> set rest. basename (fst f) \<noteq> []
           \<and> (lookup (d @ fst f) cur = None \<or> isfile (d @ fst f) cur)
           \<and> \<not> isdir (target @ [basename (fst f)]) cur"
      using Cons.prems(3) by simp
    from Cons.IH [OF Cons.prems(1,2) rest_ok dist, of k
        "ms @ [n @ '': '' @ ''Error: Source file '' @ quoted (path_text (d @ p)) @ '' not found.'']"]
    obtain fs' msgs where ih:
      "dump_loop cur d target rest k
         (ms @ [n @ '': '' @ ''Error: Source file '' @ quoted (path_text (d @ p)) @ '' not found.''])
         = (fs', Inr (k + length (filter (\<lambda>f. isfile (d @ fst f) cur) rest), msgs))"
      "\<forall>f \<in> set rest. isfile (d @ fst f) cur \<longrightarrow>
                 lookup (target @ [basename (fst f)]) fs' = lookup (d @ fst f) cur"
      "\<forall>q. diverge target q \<longrightarrow> lookup q fs' = lookup q cur"
      "\<forall>b. b \<notin> set (map (\<lambda>f. basename (fst f)) rest) \<longrightarrow>
                 lookup (target @ [b]) fs' = lookup (target @ [b]) cur"
      by blast
    have run: "dump_loop cur d target (f # rest) k ms
         = (fs', Inr (k + length (filter (\<lambda>f. isfile (d @ fst f) cur) (f # rest)), msgs))"
      unfolding f using ih(1) absent
      by (simp add: dump_file_missing [OF Cons.prems(1) absent(2)])
    show ?thesis
      using run ih(2,3,4) absent f by auto
  next
    case (Some node)
    with src obtain c where c: "lookup (d @ p) cur = Some (File c)"
      by (cases node) (auto simp: isfile_def)
    then have present: "isfile (d @ p) cur" by (simp add: isfile_def)
    let ?cur = "put (target @ [?b]) (File c) cur"
    let ?msg = "n @ '': '' @ ''File '' @ quoted ?b @ '' successfully dumped to ''
                  @ quoted (path_text (target @ [?b])) @ ''.''"
    have step: "dump_file False cur d p target
           = ([], ?cur, Inr (True, ''File '' @ quoted ?b @ '' successfully dumped to ''
                         @ quoted (path_text (target @ [?b])) @ ''.''))"
      by (rule dump_file_present [OF Cons.prems(1) c b free Cons.prems(2)])
    have t': "isdir target ?cur"
      by (rule isdir_put_below [OF Cons.prems(1)])
    have same_src: "lookup (d @ x) ?cur = lookup (d @ x) cur" for x
      by (rule lookup_put_diverge) (rule diverge_extend_left [OF apart])
    have same_name: "lookup (target @ [b']) ?cur = lookup (target @ [b']) cur" if "b' \<noteq> ?b" for b'
      by (rule lookup_put_diverge) (use that in \<open>simp add: diverge_names\<close>)
    have at: "lookup (target @ [?b]) ?cur = Some (File c)"
      using Cons.prems(1) by (intro lookup_put_new) simp_all
    have rest_ok: "\<forall>f \<in> set rest. basename (fst f) \<noteq> []
           \<and> (lookup (d @ fst f) ?cur = None \<or> isfile (d @ fst f) ?cur)
           \<and> \<not> isdir (target @ [basename (fst f)]) ?cur"
    proof
      fix g assume g: "g \<in> set rest"
      with fresh have "basename (fst g) \<noteq> ?b" by force
      from same_name [OF this]
      have "isdir (target @ [basename (fst g)]) ?cur = isdir (target @ [basename (fst g)]) cur"
        by (rule isdir_frame)
      with Cons.prems(3) g same_src [of "fst g"]
      show "basename (fst g) \<noteq> []
           \<and> (lookup (d @ fst g) ?cur = None \<or> isfile (d @ fst g) ?cur)
           \<and> \<not> isdir (target @ [basename (fst g)]) ?cur"
        by (simp add: isfile_def)
    qed
    from Cons.IH [OF t' Cons.prems(2) rest_ok dist, of "Suc k" "ms @ [?msg]"]
    obtain fs' msgs where ih:
      "dump_loop ?cur d target rest (Suc k) (ms @ [?msg])
         = (fs', Inr (Suc k + length (filter (\<lambda>f. isfile (d @ fst f) ?cur) rest), msgs))"
      "\<forall>f \<in> set rest. isfile (d @ fst f) ?cur \<longrightarrow>
                 lookup (target @ [basename (fst f)]) fs' = lookup (d @ fst f) ?cur"
      "\<forall>q. diverge target q \<longrightarrow> lookup q fs' = lookup q ?cur"
      "\<forall>b. b \<notin> set (map (\<lambda>f. basename (fst f)) rest) \<longrightarrow>
                 lookup (target @ [b]) fs' = lookup (target @ [b]) ?cur"
      by blast
    have same_file: "isfile (d @ x) ?cur = isfile (d @ x) cur" for x
      by (rule isfile_frame [OF same_src])
    have run: "dump_loop cur d target (f # rest) k ms
         = (fs', Inr (k + length (filter (\<lambda>f. isfile (d @ fst f) cur) (f # rest)), msgs))"
      unfolding f using ih(1) present step by (simp add: same_file)
    have p2: "\<forall>g \<in> set (f # rest). isfile (d @ fst g) cur \<longrightarrow>
                 lookup (target @ [basename (fst g)]) fs' = lookup (d @ fst g) cur"
    proof
      fix g assume "g \<in> set (f # rest)"
      then consider "g = f" | "g \<in> set rest" by auto
      then show "isfile (d @ fst g) cur \<longrightarrow>
                 lookup (target @ [basename (fst g)]) fs' = lookup (d @ fst g) cur"
      proof cases
        case 1
        from ih(4) fresh have "lookup (target @ [?b]) fs' = lookup (target @ [?b]) ?cur" by blast
        with at c 1 f show ?thesis by simp
      next
        case 2
        with ih(2) same_src same_file show ?thesis by simp
      qed
    qed
    have p3: "\<forall>q. diverge target q \<longrightarrow> lookup q fs' = lookup q cur"
    proof (intro allI impI)
      fix q assume q: "diverge target q"
      have "lookup q ?cur = lookup q cur"
        by (rule lookup_put_diverge) (rule diverge_extend_left [OF q])
      with ih(3) q show "lookup q fs' = lookup q cur" by simp
    qed
    have p4: "\<forall>b. b \<notin> set (map (\<lambda>f. basename (fst f)) (f # rest)) \<longrightarrow>
                 lookup (target @ [b]) fs' = lookup (target @ [b]) cur"
    proof (intro allI impI)
      fix b' assume "b' \<notin> set (map (\<lambda>f. basename (fst f)) (f # rest))"
      with f have "b' \<noteq> ?b" "b' \<notin> set (map (\<lambda>f. basename (fst f)) rest)" by auto
      with ih(4) same_name show "lookup (target @ [b']) fs' = lookup (target @ [b']) cur"
        by simp
    qed
    from run p2 p3 p4 show ?thesis by blast
  qed
qed

lemma str_nat_2: "str_nat 2 = ''2''"
  by code_simp

lemma str_nat_3: "str_nat 3 = ''3''"
  by code_simp

lemma str_nat_0: "str_nat 0 = ''0''"
  by code_simp

lemma table_names:
  "distinct (map (\<lambda>f. basename (fst f)) (dump_files_to_copy checked))"
  "f \<in> set (dump_files_to_copy checked) \<Longrightarrow> basename (fst f) \<noteq> []"
proof -
  have d: "distinct (map (\<lambda>e. basename (fst (snd e))) dump_options_data)"
    by (simp add: dump_options_data_def basename_def)
  have "distinct (map (\<lambda>e. basename (fst (snd e)))
                   (filter (\<lambda>entry. checked (fst entry)) dump_options_data))"
    by (rule distinct_map_filter [OF d])
  then show "distinct (map (\<lambda>f. basename (fst f)) (dump_files_to_copy checked))"
    by (simp add: dump_files_to_copy_def comp_def)
  have "\<forall>e \<in> set dump_options_data. basename (fst (snd e)) \<noteq> []"
    by (simp add: dump_options_data_def basename_def)
  then show "f \<in> set (dump_files_to_copy checked) \<Longrightarrow> basename (fst f) \<noteq> []"
    by (auto simp: dump_files_to_copy_def)
qed

text \<open>
  C9, as the code has it. When the destination folder exists or can be created, the batch
  attempts every selected file: a failed attempt does not end the loop, and the summary
  counts all the files and holds one message for each. When, moreover, the files are
  those selected from the table, the destination folder lies apart from the device, every
  selected source is a regular file or missing, and the folder holds no directory under
  the name of a selected file, the number of successes is the number of sources present,
  and each of them is at the destination with the content of its source: of 3 selected
  files with exactly 1 source missing, the summary reports 2 of 3.
\<close>

theorem dump_batch:
  assumes "makedirs target fs = Inr fs0"
  shows
    "(\<exists>fs' s. run_dump_in_thread fs d target files = (fs', Inr s)
        \<and> total s = length files \<and> length (messages s) = length files
        \<and> successful s \<le> length files)
     \<and> (files = dump_files_to_copy checked \<and> diverge d target
          \<and> (\<forall>f \<in> set files.
                (\<not> path_exists (d @ fst f) fs \<or> isfile (d @ fst f) fs)
                \<and> \<not> isdir (target @ [basename (fst f)]) fs)
        \<longrightarrow> (\<exists>fs' s. run_dump_in_thread fs d target files = (fs', Inr s)
              \<and> successful s = length (filter (\<lambda>f. isfile (d @ fst f) fs) files)
              \<and> (\<forall>f \<in> set files. isfile (d @ fst f) fs \<longrightarrow>
                    lookup (target @ [basename (fst f)]) fs' = lookup (d @ fst f) fs)
              \<and> (length files = 3
                    \<and> length (filter (\<lambda>f. \<not> path_exists (d @ fst f) fs) files) = 1
                  \<longrightarrow> successful s = 2 \<and> total s = 3
                      \<and> final_message s = ''2 of 3 files successfully dumped.'')))"
proof -
  have general: "\<exists>fs' s. run_dump_in_thread fs d target files = (fs', Inr s)
        \<and> total s = length files \<and> length (messages s) = length files
        \<and> successful s \<le> length files"
  proof -
    from dump_loop_total [OF assms, of d files 0 "[]"]
    obtain fs' n msgs where "dump_loop fs d target files 0 [] = (fs', Inr (n, msgs))"
      "length msgs = length files" "n \<le> length files"
      by auto
    then show ?thesis
      by (simp add: run_dump_in_thread_def Let_def)
  qed
  have counted: "\<exists>fs' s. run_dump_in_thread fs d target files = (fs', Inr s)
              \<and> successful s = length (filter (\<lambda>f. isfile (d @ fst f) fs) files)
              \<and> (\<forall>f \<in> set files. isfile (d @ fst f) fs \<longrightarrow>
                    lookup (target @ [basename (fst f)]) fs' = lookup (d @ fst f) fs)
              \<and> (length files = 3
                    \<and> length (filter (\<lambda>f. \<not> path_exists (d @ fst f) fs) files) = 1
                  \<longrightarrow> successful s = 2 \<and> total s = 3
                      \<and> final_message s = ''2 of 3 files successfully dumped.'')"
    if h: "files = dump_files_to_copy checked \<and> diverge d target
          \<and> (\<forall>f \<in> set files.
                (\<not> path_exists (d @ fst f) fs \<or> isfile (d @ fst f) fs)
                \<and> \<not> isdir (target @ [basename (fst f)]) fs)"
  proof -
    from h have apart: "diverge d target" by simp
    from h have dist: "distinct (map (\<lambda>f. basename (fst f)) files)"
      by (simp add: table_names(1))
    from h have named: "basename (fst f) \<noteq> []" if "f \<in> set files" for f
      using that table_names(2) [of f checked] by simp
    have t0: "isdir target fs0" by (rule makedirs_isdir [OF assms])
    have src: "lookup (d @ x) fs0 = lookup (d @ x) fs" for x
    proof (rule lookup_makedirs_diverge [OF assms])
      show "diverge target (d @ x)"
        using diverge_append [OF diverge_sym [OF apart], of "[]" x] by simp
    qed
    have below: "lookup (target @ [b]) fs0 = lookup (target @ [b]) fs" for b
      by (rule lookup_makedirs_below [OF assms])
    have present_eq: "isfile (d @ x) fs0 = isfile (d @ x) fs" for x
      by (rule isfile_frame [OF src])
    have ok0: "\<forall>f \<in> set files. basename (fst f) \<noteq> []
           \<and> (lookup (d @ fst f) fs0 = None \<or> isfile (d @ fst f) fs0)
           \<and> \<not> isdir (target @ [basename (fst f)]) fs0"
    proof
      fix f assume "f \<in> set files"
      with h named have f: "basename (fst f) \<noteq> []"
          "\<not> path_exists (d @ fst f) fs \<or> isfile (d @ fst f) fs"
          "\<not> isdir (target @ [basename (fst f)]) fs"
        by auto
      from f(3) isdir_frame [OF below [of "basename (fst f)"]]
      have "\<not> isdir (target @ [basename (fst f)]) fs0" by simp
      with f(1,2) src [of "fst f"] present_eq [of "fst f"]
      show "basename (fst f) \<noteq> []
           \<and> (lookup (d @ fst f) fs0 = None \<or> isfile (d @ fst f) fs0)
           \<and> \<not> isdir (target @ [basename (fst f)]) fs0"
        by (auto simp: path_exists_def)
    qed
    from dump_loop_counts [OF t0 apart ok0 dist, of 0 "[]"]
    obtain fs' msgs where loop0:
      "dump_loop fs0 d target files 0 []
         = (fs', Inr (0 + length (filter (\<lambda>f. isfile (d @ fst f) fs0) files), msgs))"
      and at0: "\<forall>f \<in> set files. isfile (d @ fst f) fs0 \<longrightarrow>
                 lookup (target @ [basename (fst f)]) fs' = lookup (d @ fst f) fs0"
      by blast
    have count: "length (filter (\<lambda>f. isfile (d @ fst f) fs0) files)
                   = length (filter (\<lambda>f. isfile (d @ fst f) fs) files)"
      by (simp add: present_eq)
    have two: "length (filter (\<lambda>f. isfile (d @ fst f) fs) files) = 2"
      if "length files = 3"
        "length (filter (\<lambda>f. \<not> path_exists (d @ fst f) fs) files) = 1"
    proof -
      have "filter (\<lambda>f. isfile (d @ fst f) fs) files
              = filter (\<lambda>f. path_exists (d @ fst f) fs) files"
        using h by (intro filter_cong) (auto simp: isfile_def path_exists_def split: option.splits)
      moreover have "length (filter (\<lambda>f. path_exists (d @ fst f) fs) files)
              + length (filter (\<lambda>f. \<not> path_exists (d @ fst f) fs) files) = length files"
        by (rule sum_length_filter_compl)
      ultimately show ?thesis using that by simp
    qed
    show ?thesis
    proof (cases "files = []")
      case True
      then show ?thesis by (simp add: run_dump_in_thread_def Let_def)
    next
      case False
      from dump_loop_from_created [OF assms False, of d 0 "[]"] loop0 count
      have loop: "dump_loop fs d target files 0 []
         = (fs', Inr (length (filter (\<lambda>f. isfile (d @ fst f) fs) files), msgs))"
        by simp
      from at0 have at: "\<forall>f \<in> set files. isfile (d @ fst f) fs \<longrightarrow>
                    lookup (target @ [basename (fst f)]) fs' = lookup (d @ fst f) fs"
        by (simp add: present_eq src)
      show ?thesis
        using loop at two
        by (auto simp: run_dump_in_thread_def Let_def str_nat_2 str_nat_3)
    qed
  qed
  from general counted show ?thesis by blast
qed

section \<open>When the copies of a Luma3DS archive succeed\<close>

lemma copy2_into:
  assumes "lookup src from = Some (File c)" and "isdir p fs" and "\<not> isdir (p @ [x]) fs"
  shows "copy2 False from src (p @ [x]) fs = Inr (put (p @ [x]) (File c) fs)"
  using assms by (simp add: copy2_def write_file_def)

lemma put_file_below:
  assumes "isdir p fs"
  shows "isdir p (put (p @ [x]) (File c) fs)"
    and "lookup (p @ [x]) (put (p @ [x]) (File c) fs) = Some (File c)"
    and "diverge (p @ [x]) q \<Longrightarrow> lookup q (put (p @ [x]) (File c) fs) = lookup q fs"
proof -
  show "isdir p (put (p @ [x]) (File c) fs)"
    by (rule isdir_put_below [OF assms])
  show "lookup (p @ [x]) (put (p @ [x]) (File c) fs) = Some (File c)"
    using assms by (intro lookup_put_new) simp_all
  show "diverge (p @ [x]) q \<Longrightarrow> lookup q (put (p @ [x]) (File c) fs) = lookup q fs"
    by (rule lookup_put_diverge)
qed

lemma copy_boot_firm_ready:
  assumes "isdir d fs" and "\<not> isdir [''boot.firm''] extracted"
    and "\<not> isdir (d @ [''boot.firm'']) fs"
  shows "\<exists>ev fs1. copy_boot_firm cb extracted d fs = (ev, Inr fs1) \<and> isdir d fs1
           \<and> (\<forall>q. diverge (d @ [''boot.firm'']) q \<longrightarrow> lookup q fs1 = lookup q fs)"
proof (cases "path_exists [''boot.firm''] extracted")
  case False
  with assms(1) show ?thesis by (simp add: copy_boot_firm_def)
next
  case True
  with assms(2) obtain c where c: "lookup [''boot.firm''] extracted = Some (File c)"
    by (auto simp: path_exists_def isdir_def split: option.splits node.splits)
  from copy2_into [OF c assms(1,3)] put_file_below [OF assms(1), where x = "''boot.firm''" and c = c] True
  show ?thesis by (simp add: copy_boot_firm_def)
qed

lemma copy_boot_3dsx_ready:
  assumes "isdir d fs" and "\<not> isdir [''boot.3dsx''] extracted"
    and "\<not> isdir (d @ [''boot.3dsx'']) fs"
  shows "\<exists>ev fs1. copy_boot_3dsx cb extracted d fs = (ev, Inr fs1) \<and> isdir d fs1
           \<and> (\<forall>q. diverge (d @ [''boot.3dsx'']) q \<longrightarrow> lookup q fs1 = lookup q fs)"
proof (cases "path_exists [''boot.3dsx''] extracted")
  case False
  with assms(1) show ?thesis by (simp add: copy_boot_3dsx_def)
next
  case True
  with assms(2) obtain c where c: "lookup [''boot.3dsx''] extracted = Some (File c)"
    by (auto simp: path_exists_def isdir_def split: option.splits node.splits)
  from copy2_into [OF c assms(1,3)] put_file_below [OF assms(1), where x = "''boot.3dsx''" and c = c] True
  show ?thesis by (simp add: copy_boot_3dsx_def)
qed

lemma makedirs_two:
  "isdir d fs \<Longrightarrow> \<not> isfile (d @ [a]) fs \<Longrightarrow> \<not> isfile (d @ [a, b]) fs
   \<Longrightarrow> \<exists>fs'. makedirs (d @ [a, b]) fs = Inr fs'"
proof (induction d arbitrary: fs)
  case Nil
  then show ?case
    by (cases fs) (auto simp: isdir_def isfile_def split: option.splits node.splits)
next
  case (Cons x d)
  from Cons.prems(1) obtain es c where n: "fs = Dir es" and c: "map_of es x = Some c"
      and sub: "isdir d c"
    by (cases fs) (auto simp: isdir_def split: option.splits)
  from Cons.prems(2,3) n c have "\<not> isfile (d @ [a]) c" "\<not> isfile (d @ [a, b]) c"
    by (simp_all add: isfile_def)
  from Cons.IH [OF sub this] obtain c' where "makedirs (d @ [a, b]) c = Inr c'" by blast
  with n c show ?case by simp
qed

lemma copy_config_items_ready:
  assumes "isdir cfg fs" and "\<forall>item \<in> set items. \<not> isdir (cfg @ [item]) fs"
  shows "snd (copy_config_items extracted src cfg items fs) = None"
  using assms
proof (induction items arbitrary: fs)
  case Nil
  then show ?case by simp
next
  case (Cons item rest)
  show ?case
  proof (cases "isfile (src @ [item]) extracted")
    case False
    with Cons show ?thesis by simp
  next
    case True
    then obtain c where c: "lookup (src @ [item]) extracted = Some (File c)"
      by (auto simp: isfile_def split: option.splits node.splits)
    let ?fs = "put (cfg @ [item]) (File c) fs"
    from Cons.prems have free: "\<not> isdir (cfg @ [item]) fs" by simp
    note after = put_file_below [OF Cons.prems(1), where x = item and c = c]
    have "\<forall>i \<in> set rest. \<not> isdir (cfg @ [i]) ?fs"
    proof
      fix i assume i: "i \<in> set rest"
      show "\<not> isdir (cfg @ [i]) ?fs"
      proof (cases "i = item")
        case True
        with after(2) show ?thesis by (simp add: isdir_def)
      next
        case False
        then have "diverge (cfg @ [item]) (cfg @ [i])" by (simp add: diverge_names)
        from after(3) [OF this] Cons.prems(2) i show ?thesis by (simp add: isdir_def)
      qed
    qed
    from Cons.IH [OF after(1) this] True copy2_into [OF c Cons.prems(1) free]
    show ?thesis by simp
  qed
qed

lemma update_luma_config_ready:
  assumes "isdir d fs" and "\<not> isfile (d @ [''luma'']) fs"
    and "\<not> isfile (d @ [''luma'', ''config'']) fs"
    and "\<forall>item \<in> set (listdir [''luma'', ''config''] extracted).
           \<not> isdir (d @ [''luma'', ''config'', item]) fs"
  shows "snd (snd (update_luma_config cb extracted (d @ [''luma'', ''config'']) fs)) = None"
proof (cases "isdir [''luma'', ''config''] extracted")
  case False
  then show ?thesis by (simp add: update_luma_config_def)
next
  case True
  from makedirs_two [OF assms(1,2,3)] obtain fs' where
    m: "makedirs (d @ [''luma'', ''config'']) fs = Inr fs'" by blast
  have t: "isdir (d @ [''luma'', ''config'']) fs'" by (rule makedirs_isdir [OF m])
  have "\<forall>item \<in> set (listdir [''luma'', ''config''] extracted).
           \<not> isdir ((d @ [''luma'', ''config'']) @ [item]) fs'"
  proof
    fix item assume i: "item \<in> set (listdir [''luma'', ''config''] extracted)"
    from lookup_makedirs_below [OF m, of item "[]"] assms(4) i
    show "\<not> isdir ((d @ [''luma'', ''config'']) @ [item]) fs'"
      by (simp add: isdir_def)
  qed
  from copy_config_items_ready [OF t this, of extracted "[''luma'', ''config'']"] True m
  show ?thesis
    by (simp add: update_luma_config_def case_prod_beta)
qed

lemma luma_inject_ready:
  assumes "luma_copy_ready extracted d fs"
  shows "\<not> isl (snd (snd (luma_inject cb extracted d fs)))"
proof -
  from assms have r: "isdir d fs"
      "\<not> isdir [''boot.firm''] extracted" "\<not> isdir [''boot.3dsx''] extracted"
      "\<not> isdir (d @ [''boot.firm'']) fs" "\<not> isdir (d @ [''boot.3dsx'']) fs"
      "\<not> isfile (d @ [''luma'']) fs" "\<not> isfile (d @ [''luma'', ''config'']) fs"
      "\<forall>item \<in> set (listdir [''luma'', ''config''] extracted).
           \<not> isdir (d @ [''luma'', ''config'', item]) fs"
    by (simp_all add: luma_copy_ready_def list_all_iff)
  from copy_boot_firm_ready [OF r(1,2,4), of cb] obtain ev1 fs1 where
    s1: "copy_boot_firm cb extracted d fs = (ev1, Inr fs1)" and d1: "isdir d fs1"
    and f1: "\<And>q. diverge (d @ [''boot.firm'']) q \<Longrightarrow> lookup q fs1 = lookup q fs"
    by blast
  have k1: "lookup (d @ x # xs) fs1 = lookup (d @ x # xs) fs" if "x \<noteq> ''boot.firm''" for x xs
    by (rule f1) (use that in \<open>simp add: diverge_prefix\<close>)
  from r(5) k1 [of "''boot.3dsx''" "[]"] have "\<not> isdir (d @ [''boot.3dsx'']) fs1"
    by (simp add: isdir_def)
  from copy_boot_3dsx_ready [OF d1 r(3) this, of cb] obtain ev2 fs2 where
    s2: "copy_boot_3dsx cb extracted d fs1 = (ev2, Inr fs2)" and d2: "isdir d fs2"
    and f2: "\<And>q. diverge (d @ [''boot.3dsx'']) q \<Longrightarrow> lookup q fs2 = lookup q fs1"
    by blast
  have k2: "lookup (d @ ''luma'' # xs) fs2 = lookup (d @ ''luma'' # xs) fs" for xs
  proof -
    have "lookup (d @ ''luma'' # xs) fs2 = lookup (d @ ''luma'' # xs) fs1"
      by (rule f2) (simp add: diverge_prefix)
    with k1 [of "''luma''" xs] show ?thesis by simp
  qed
  have c1: "\<not> isfile (d @ [''luma'']) fs2"
    using r(6) k2 [of "[]"] by (simp add: isfile_def)
  have c2: "\<not> isfile (d @ [''luma'', ''config'']) fs2"
    using r(7) k2 [of "[''config'']"] by (simp add: isfile_def)
  have c3: "\<forall>item \<in> set (listdir [''luma'', ''config''] extracted).
           \<not> isdir (d @ [''luma'', ''config'', item]) fs2"
    using r(8) k2 by (simp add: isdir_def)
  from update_luma_config_ready [OF d2 c1 c2 c3, of cb]
  have "snd (snd (update_luma_config cb extracted (d @ [''luma'', ''config'']) fs2)) = None" .
  with s1 s2 show ?thesis
    by (simp add: luma_inject_def case_prod_beta split: prod.splits)
qed

section \<open>Optional and required files of the archives\<close>

lemma first_some_None: "(\<And>x. x \<in> set xs \<Longrightarrow> x = None) \<Longrightarrow> first_some xs = None"
  by (induction xs rule: first_some.induct) auto

lemma walk_find_absent:
  "(\<And>p. p \<in> set (all_files t) \<Longrightarrow> p = [] \<or> last p \<noteq> nm) \<Longrightarrow> walk_find nm t = None"
proof (induction nm t rule: walk_find.induct)
  case (1 nm c)
  then show ?case by simp
next
  case (2 nm es)
  have no_file: "nm \<notin> set (map fst (filter (\<lambda>e. is_file_node (snd e)) es))"
  proof
    assume "nm \<in> set (map fst (filter (\<lambda>e. is_file_node (snd e)) es))"
    then obtain c where "(nm, c) \<in> set es" "is_file_node c" by auto
    then have "[nm] \<in> set (all_files (Dir es))"
      by (cases c) force+
    from "2.prems" [OF this] show False by simp
  qed
  have sub: "walk_find nm (snd e) = None"
    if "e \<in> set (filter (\<lambda>e. \<not> is_file_node (snd e)) es)" for e
  proof (rule "2.IH" [OF no_file that])
    fix p assume p: "p \<in> set (all_files (snd e))"
    from that have "e \<in> set es" by simp
    with p have "fst e # p \<in> set (all_files (Dir es))" by force
    from "2.prems" [OF this] show "p = [] \<or> last p \<noteq> nm"
      by (cases p) auto
  qed
  show ?case
    using no_file sub by (auto intro!: first_some_None)
qed

lemma gm9_inject_no_firm:
  assumes "walk_find ''GodMode9.firm'' extracted = None"
  shows "fst (gm9_inject cb extracted d fs) = []
         \<and> snd (snd (gm9_inject cb extracted d fs)) \<noteq> Inr (True, m)"
  using assms by (simp add: gm9_inject_def Let_def split: sum.splits)

lemma download_events_statuses:
  "set (statuses (download_events fl cb t dd cs)) \<subseteq> {''info''}"
  by (induction cs arbitrary: dd) (auto simp: statuses_def)

lemma luma_inject_completed:
  assumes "\<not> isl (snd (snd (luma_inject cb extracted d fs)))"
  shows "\<exists>ev1 ev2 ev3 fs1 fs2 fs3.
           copy_boot_firm cb extracted d fs = (ev1, Inr fs1)
           \<and> copy_boot_3dsx cb extracted d fs1 = (ev2, Inr fs2)
           \<and> luma_inject cb extracted d fs
               = (ev1 @ ev2 @ ev3
                    @ emit cb (''Luma3DS files successfully copied.'', 100, ''success''),
                  fs3, Inr (True, ''Luma3DS update successful.''))"
  using assms unfolding luma_inject_def
  by (auto split: prod.splits sum.splits option.splits)

lemma download_events_not_success:
  "''success'' \<notin> set (statuses (download_events fl cb t dd cs))"
  using download_events_statuses [of fl cb t dd cs] by auto

lemma download_events_below_100:
  assumes "rounding_ok fl" and "within_length f"
  shows "100 \<notin> set (percents (download_events fl cb (content_length f) 0 (chunks f)))"
  using download_events_steady [OF assms, of cb] unfolding steady_def by fastforce

text \<open>
  C5, as the code has it. Luma3DS: when the download and the extraction complete,
  \<open>boot.firm\<close> or \<open>boot.3dsx\<close> is absent from the extracted archive and the device
  can take the remaining copies, the callback receives a warning event, the function
  returns success, and the last event is the success event at 100 percent; with nothing
  to copy at all, success needs no condition on the device, which is left as it was.
  GodMode9: when no file of the extracted tree is named \<open>GodMode9.firm\<close>, the function
  returns failure and emits no success event, and no event at 100 percent while the
  bytes received stay within the advertised content length.
\<close>

theorem optional_and_required_files:
  "(broken f = None \<and> archive f = Inr extracted
      \<and> (\<not> path_exists [''boot.firm''] extracted \<or> \<not> path_exists [''boot.3dsx''] extracted)
      \<and> luma_copy_ready extracted d fs
    \<longrightarrow> (case download_and_inject_luma_update fl fs d f True of
           (evs, fs', ok, msg) \<Rightarrow>
             ok \<and> ''warning'' \<in> set (statuses evs)
             \<and> last evs = (''Luma3DS files successfully copied.'', 100, ''success'')))
   \<and> (broken f = None \<and> archive f = Inr extracted
      \<and> \<not> path_exists [''boot.firm''] extracted \<and> \<not> path_exists [''boot.3dsx''] extracted
      \<and> \<not> isdir [''luma'', ''config''] extracted
    \<longrightarrow> (case download_and_inject_luma_update fl fs d f True of
           (evs, fs', ok, msg) \<Rightarrow>
             ok \<and> fs' = fs
             \<and> last evs = (''Luma3DS files successfully copied.'', 100, ''success'')))
   \<and> (archive f = Inr extracted
      \<and> (\<forall>p \<in> set (all_files extracted). p = [] \<or> last p \<noteq> ''GodMode9.firm'')
    \<longrightarrow> (case download_and_inject_gm9_update fl fs d f cb of
           (evs, fs', ok, msg) \<Rightarrow>
             \<not> ok \<and> ''success'' \<notin> set (statuses evs)
             \<and> (rounding_ok fl \<and> within_length f \<longrightarrow> 100 \<notin> set (percents evs))))"
proof -
  have luma: "case download_and_inject_luma_update fl fs d f True of
           (evs, fs', ok, msg) \<Rightarrow>
             ok \<and> ''warning'' \<in> set (statuses evs)
             \<and> last evs = (''Luma3DS files successfully copied.'', 100, ''success'')"
    if h: "broken f = None \<and> archive f = Inr extracted
      \<and> (\<not> path_exists [''boot.firm''] extracted \<or> \<not> path_exists [''boot.3dsx''] extracted)
      \<and> luma_copy_ready extracted d fs"
  proof -
    from h have "\<not> isl (snd (snd (luma_inject True extracted d fs)))"
      by (simp add: luma_inject_ready)
    from luma_inject_completed [OF this]
    obtain ev1 ev2 ev3 fs1 fs2 fs3 where
      c1: "copy_boot_firm True extracted d fs = (ev1, Inr fs1)"
      and c2: "copy_boot_3dsx True extracted d fs1 = (ev2, Inr fs2)"
      and inj: "luma_inject True extracted d fs
               = (ev1 @ ev2 @ ev3
                    @ emit True (''Luma3DS files successfully copied.'', 100, ''success''),
                  fs3, Inr (True, ''Luma3DS update successful.''))"
      by blast
    have w: "''warning'' \<in> set (statuses ev1) \<or> ''warning'' \<in> set (statuses ev2)"
      using h c1 c2
      by (auto simp: copy_boot_firm_def copy_boot_3dsx_def statuses_simps split: if_splits)
    from h have b: "broken f = None" and a: "archive f = Inr extracted" by simp_all
    have run: "download_and_inject_luma_update fl fs d f True
      = (emit True (''Starting Luma3DS update process...'', 0, ''info'')
           @ (emit True (''Downloading Luma3DS...'', 10, ''info'')
               @ download_events fl True (content_length f) 0 (chunks f))
           @ emit True (''Luma3DS archive downloaded.'', 60, ''info'')
           @ emit True (''Luma3DS archive extracted.'', 70, ''info'')
           @ ev1 @ ev2 @ ev3
           @ emit True (''Luma3DS files successfully copied.'', 100, ''success''),
         fs3, True, ''Luma3DS update successful.'')"
      by (simp add: download_and_inject_luma_update_def luma_try_def Let_def b a inj)
    show ?thesis
      unfolding run using w by (auto simp: statuses_def emit_def)
  qed
  have bare: "case download_and_inject_luma_update fl fs d f True of
           (evs, fs', ok, msg) \<Rightarrow>
             ok \<and> fs' = fs
             \<and> last evs = (''Luma3DS files successfully copied.'', 100, ''success'')"
    if h: "broken f = None \<and> archive f = Inr extracted
      \<and> \<not> path_exists [''boot.firm''] extracted \<and> \<not> path_exists [''boot.3dsx''] extracted
      \<and> \<not> isdir [''luma'', ''config''] extracted"
  proof -
    have inj: "luma_inject True extracted d fs
      = (emit True (''Warning: '' @ quoted ''boot.firm''
                          @ '' not found in extracted Luma archive.'', 75, ''warning'')
         @ emit True (''Warning: '' @ quoted ''boot.3dsx''
                          @ '' not found in extracted Luma archive.'', 80, ''warning'')
         @ emit True (''Warning: Luma/config folder not found in release.'', 85, ''warning'')
         @ emit True (''Luma3DS files successfully copied.'', 100, ''success''),
         fs, Inr (True, ''Luma3DS update successful.''))"
      using h
      by (simp add: luma_inject_def copy_boot_firm_def copy_boot_3dsx_def update_luma_config_def)
    from h have b: "broken f = None" and a: "archive f = Inr extracted" by simp_all
    show ?thesis
      by (simp add: download_and_inject_luma_update_def luma_try_def Let_def b a inj emit_def)
  qed
  have gm9: "case download_and_inject_gm9_update fl fs d f cb of
           (evs, fs', ok, msg) \<Rightarrow>
             \<not> ok \<and> ''success'' \<notin> set (statuses evs)
             \<and> (rounding_ok fl \<and> within_length f \<longrightarrow> 100 \<notin> set (percents evs))"
    if h: "archive f = Inr extracted
      \<and> (\<forall>p \<in> set (all_files extracted). p = [] \<or> last p \<noteq> ''GodMode9.firm'')"
  proof -
    from h have wf: "walk_find ''GodMode9.firm'' extracted = None"
      by (intro walk_find_absent) auto
    obtain ev1 fsx r where inj: "gm9_inject cb extracted d fs = (ev1, fsx, r)"
      by (cases "gm9_inject cb extracted d fs") auto
    from gm9_inject_no_firm [OF wf, of cb d fs] inj
    have e: "ev1 = []" and r: "\<And>m. r \<noteq> Inr (True, m)" by auto
    from h have a: "archive f = Inr extracted" by simp
    have ds: "''success'' \<notin> set (statuses (download_events fl cb (content_length f) 0 (chunks f)))"
      by (rule download_events_not_success)
    have dp: "100 \<notin> set (percents (download_events fl cb (content_length f) 0 (chunks f)))"
      if "rounding_ok fl \<and> within_length f"
      using that download_events_below_100 by blast
    show ?thesis
    proof (cases "broken f")
      case (Some x)
      then show ?thesis
        using ds dp
        by (cases x)
           (auto simp: download_and_inject_gm9_update_def gm9_try_def Let_def statuses_simps
              percents_simps)
    next
      case None
      show ?thesis
      proof (cases r)
        case (Inl x)
        then show ?thesis
          using ds dp None a inj e
          by (cases x)
             (auto simp: download_and_inject_gm9_update_def gm9_try_def Let_def statuses_simps
                percents_simps)
      next
        case (Inr res)
        with r have "\<not> fst res" by (cases res) auto
        then show ?thesis
          using ds dp None a inj e Inr
          by (cases res)
             (auto simp: download_and_inject_gm9_update_def gm9_try_def Let_def statuses_simps
                percents_simps)
      qed
    qed
  qed
  from luma bare gm9 show ?thesis by blast
qed

theorem optional_and_required_files_witness:
  "\<not> path_exists [''boot.firm'']
       (Dir [(''boot.3dsx'', File ''X''),
             (''luma'', Dir [(''config'', Dir [(''cfg.bin'', File ''c'')])])])
   \<and> luma_copy_ready
       (Dir [(''boot.3dsx'', File ''X''),
             (''luma'', Dir [(''config'', Dir [(''cfg.bin'', File ''c'')])])])
       [''E:''] (Dir [(''E:'', Dir [(''boot.firm'', File ''old'')])])
   \<and> luma_inject True
       (Dir [(''boot.3dsx'', File ''X''),
             (''luma'', Dir [(''config'', Dir [(''cfg.bin'', File ''c'')])])])
       [''E:''] (Dir [(''E:'', Dir [(''boot.firm'', File ''old'')])])
     = ([(''Warning: '' @ quoted ''boot.firm'' @ '' not found in extracted Luma archive.'',
          75, ''warning''),
         (''Copying boot.3dsx...'', 80, ''info''),
         (''Updating luma/config folder...'', 85, ''info''),
         (''Luma3DS files successfully copied.'', 100, ''success'')],
        Dir [(''E:'', Dir [(''boot.firm'', File ''old''), (''boot.3dsx'', File ''X''),
                           (''luma'', Dir [(''config'', Dir [(''cfg.bin'', File ''c'')])])])],
        Inr (True, ''Luma3DS update successful.''))
   \<and> (case download_and_inject_luma_update exact_rounding
            (Dir [(''E:'', Dir [(''boot.firm'', File ''old'')])]) [''E:'']
            \<lparr>content_length = 0, chunks = [], broken = None,
             archive = Inr (Dir [(''boot.3dsx'', File ''X''),
                                 (''luma'', Dir [(''config'', Dir [(''cfg.bin'', File ''c'')])])])\<rparr>
            True of
         (evs, fs', ok, msg) \<Rightarrow>
           ok \<and> ''warning'' \<in> set (statuses evs)
           \<and> last evs = (''Luma3DS files successfully copied.'', 100, ''success''))
   \<and> (case download_and_inject_gm9_update exact_rounding
            (Dir [(''E:'', Dir [(''boot.firm'', File ''old'')])]) [''E:'']
            \<lparr>content_length = 0, chunks = [], broken = None,
             archive = Inr (Dir [(''boot.3dsx'', File ''X''),
                                 (''luma'', Dir [(''config'', Dir [(''cfg.bin'', File ''c'')])])])\<rparr>
            True of
         (evs, fs', ok, msg) \<Rightarrow>
           \<not> ok \<and> ''success'' \<notin> set (statuses evs) \<and> 100 \<notin> set (percents evs))"
proof -
  let ?ar = "Dir [(''boot.3dsx'', File ''X''),
                  (''luma'', Dir [(''config'', Dir [(''cfg.bin'', File ''c'')])])]"
  let ?dev = "Dir [(''E:'', Dir [(''boot.firm'', File ''old'')])]"
  let ?dev1 = "Dir [(''E:'', Dir [(''boot.firm'', File ''old''), (''boot.3dsx'', File ''X'')])]"
  let ?dev2 = "Dir [(''E:'', Dir [(''boot.firm'', File ''old''), (''boot.3dsx'', File ''X''),
                           (''luma'', Dir [(''config'', Dir [(''cfg.bin'', File ''c'')])])])]"
  let ?f = "\<lparr>content_length = 0, chunks = [], broken = None, archive = Inr ?ar\<rparr>"
  have absent: "\<not> path_exists [''boot.firm''] ?ar" by (simp add: path_exists_def)
  have s1: "copy_boot_firm True ?ar [''E:''] ?dev
      = ([(''Warning: '' @ quoted ''boot.firm'' @ '' not found in extracted Luma archive.'',
           75, ''warning'')], Inr ?dev)"
    by (simp add: copy_boot_firm_def path_exists_def emit_def)
  have s2: "copy_boot_3dsx True ?ar [''E:''] ?dev
      = ([(''Copying boot.3dsx...'', 80, ''info'')], Inr ?dev1)"
    by (simp add: copy_boot_3dsx_def path_exists_def emit_def copy2_def write_file_def isdir_def)
  have s3: "update_luma_config True ?ar [''E:'', ''luma'', ''config''] ?dev1
      = ([(''Updating luma/config folder...'', 85, ''info'')], ?dev2, None)"
    by (simp add: update_luma_config_def isdir_def isfile_def listdir_def emit_def copy2_def
        write_file_def)
  have inj: "luma_inject True ?ar [''E:''] ?dev
     = ([(''Warning: '' @ quoted ''boot.firm'' @ '' not found in extracted Luma archive.'',
          75, ''warning''),
         (''Copying boot.3dsx...'', 80, ''info''),
         (''Updating luma/config folder...'', 85, ''info''),
         (''Luma3DS files successfully copied.'', 100, ''success'')],
        ?dev2, Inr (True, ''Luma3DS update successful.''))"
    by (simp add: luma_inject_def s1 s2 s3 emit_def)
  have ready: "luma_copy_ready ?ar [''E:''] ?dev"
    by (simp add: luma_copy_ready_def isdir_def isfile_def listdir_def)
  have hyp1: "broken ?f = None \<and> archive ?f = Inr ?ar
      \<and> (\<not> path_exists [''boot.firm''] ?ar \<or> \<not> path_exists [''boot.3dsx''] ?ar)
      \<and> luma_copy_ready ?ar [''E:''] ?dev"
    using absent ready by simp
  have hyp3: "archive ?f = Inr ?ar
      \<and> (\<forall>p \<in> set (all_files ?ar). p = [] \<or> last p \<noteq> ''GodMode9.firm'')"
    by simp
  have r: "rounding_ok exact_rounding \<and> within_length ?f"
    by (simp add: exact_rounding_ok within_length_def)
  note inst = optional_and_required_files [of ?f ?ar "[''E:'']" ?dev exact_rounding True]
  from inst [THEN conjunct1, THEN mp, OF hyp1]
  have luma: "case download_and_inject_luma_update exact_rounding ?dev [''E:''] ?f True of
         (evs, fs', ok, msg) \<Rightarrow>
           ok \<and> ''warning'' \<in> set (statuses evs)
           \<and> last evs = (''Luma3DS files successfully copied.'', 100, ''success'')" .
  from inst [THEN conjunct2, THEN conjunct2, THEN mp, OF hyp3]
  have "case download_and_inject_gm9_update exact_rounding ?dev [''E:''] ?f True of
           (evs, fs', ok, msg) \<Rightarrow>
             \<not> ok \<and> ''success'' \<notin> set (statuses evs)
             \<and> (rounding_ok exact_rounding \<and> within_length ?f
                  \<longrightarrow> 100 \<notin> set (percents evs))" .
  with r have gm9: "case download_and_inject_gm9_update exact_rounding ?dev [''E:''] ?f True of
         (evs, fs', ok, msg) \<Rightarrow>
           \<not> ok \<and> ''success'' \<notin> set (statuses evs) \<and> 100 \<notin> set (percents evs)"
    by (simp add: case_prod_beta)
  show ?thesis
    by (rule conjI [OF absent conjI [OF ready conjI [OF inj conjI [OF luma gm9]]]])
qed

text \<open>
  The claim C5 as it is written fails. GodMode9: with 18 bytes received against an
  advertised length of 10 and an archive that holds only \<open>README.md\<close>, the download event
  carries 100 percent and the function returns failure. Luma3DS: with \<open>boot.firm\<close> absent
  and a device root that does not exist, the copy of \<open>boot.3dsx\<close> raises and the function
  returns failure.
\<close>

theorem absent_file_outcomes_differ:
  "all_files (Dir [(''README.md'', File ''r'')]) = [[''README.md'']]
   \<and> percents (fst (download_and_inject_gm9_update exact_rounding
        (Dir [(''E:'', Dir [])]) [''E:'']
        \<lparr>content_length = 10, chunks = [18], broken = None,
         archive = Inr (Dir [(''README.md'', File ''r'')])\<rparr> True))
       = [0, 10, 100, 60, 70]
   \<and> fst (snd (snd (download_and_inject_gm9_update exact_rounding
        (Dir [(''E:'', Dir [])]) [''E:'']
        \<lparr>content_length = 10, chunks = [18], broken = None,
         archive = Inr (Dir [(''README.md'', File ''r'')])\<rparr> True)))
       = False
   \<and> path_exists [''boot.firm''] (Dir [(''boot.3dsx'', File ''X'')]) = False
   \<and> snd (download_and_inject_luma_update exact_rounding (Dir []) [''E:'']
        \<lparr>content_length = 0, chunks = [], broken = None,
         archive = Inr (Dir [(''boot.3dsx'', File ''X'')])\<rparr> True)
       = (Dir [], False, ''An unexpected error during Luma3DS update: FileNotFoundError'')"
proof -
  let ?ar = "Dir [(''README.md'', File ''r'')]"
  let ?f = "\<lparr>content_length = 10, chunks = [18], broken = None, archive = Inr ?ar\<rparr>"
  have files: "all_files ?ar = [[''README.md'']]" by simp
  have mk: "makedirs [''E:'', ''luma'', ''payloads''] (Dir [(''E:'', Dir [])])
              = Inr (Dir [(''E:'', Dir [(''luma'', Dir [(''payloads'', Dir [])])])])"
    by simp
  have wf: "walk_find ''GodMode9.firm'' ?ar = None" by simp
  have inj: "gm9_inject True ?ar [''E:''] (Dir [(''E:'', Dir [])])
      = ([], Dir [(''E:'', Dir [(''luma'', Dir [(''payloads'', Dir [])])])],
         Inr (False, ''Error: '' @ quoted ''GodMode9.firm''
                      @ '' not found in the extracted GodMode9 archive.''))"
    by (simp add: gm9_inject_def mk wf)
  have dl: "percents (download_events exact_rounding True 10 0 [18]) = [100]"
    by (simp add: percents_def exact_rounding_def)
  have tr: "gm9_try exact_rounding (Dir [(''E:'', Dir [])]) [''E:''] ?f True
      = (emit True (''Downloading GodMode9...'', 10, ''info'')
           @ download_events exact_rounding True 10 0 [18]
           @ emit True (''GodMode9 archive downloaded.'', 60, ''info'')
           @ emit True (''GodMode9 archive extracted.'', 70, ''info''),
         Dir [(''E:'', Dir [(''luma'', Dir [(''payloads'', Dir [])])])],
         Inr (False, ''Error: '' @ quoted ''GodMode9.firm''
                      @ '' not found in the extracted GodMode9 archive.''))"
    by (simp add: gm9_try_def inj del: download_events.simps)
  have run: "download_and_inject_gm9_update exact_rounding (Dir [(''E:'', Dir [])]) [''E:''] ?f True
      = (emit True (''Starting GodMode9 update process...'', 0, ''info'')
           @ emit True (''Downloading GodMode9...'', 10, ''info'')
           @ download_events exact_rounding True 10 0 [18]
           @ emit True (''GodMode9 archive downloaded.'', 60, ''info'')
           @ emit True (''GodMode9 archive extracted.'', 70, ''info''),
         Dir [(''E:'', Dir [(''luma'', Dir [(''payloads'', Dir [])])])],
         False, ''Error: '' @ quoted ''GodMode9.firm''
                      @ '' not found in the extracted GodMode9 archive.'')"
    by (simp add: download_and_inject_gm9_update_def tr del: download_events.simps)
  have pc: "percents (fst (download_and_inject_gm9_update exact_rounding
              (Dir [(''E:'', Dir [])]) [''E:''] ?f True)) = [0, 10, 100, 60, 70]"
    unfolding run by (simp add: percents_simps dl del: download_events.simps)
  have ok: "fst (snd (snd (download_and_inject_gm9_update exact_rounding
              (Dir [(''E:'', Dir [])]) [''E:''] ?f True))) = False"
    unfolding run by simp
  let ?la = "Dir [(''boot.3dsx'', File ''X'')]"
  let ?lf = "\<lparr>content_length = 0, chunks = [], broken = None, archive = Inr ?la\<rparr>"
  have absent: "path_exists [''boot.firm''] ?la = False" by (simp add: path_exists_def)
  have s1: "copy_boot_firm True ?la [''E:''] (Dir [])
      = (emit True (''Warning: '' @ quoted ''boot.firm''
                    @ '' not found in extracted Luma archive.'', 75, ''warning''), Inr (Dir []))"
    by (simp add: copy_boot_firm_def path_exists_def)
  have s2: "copy_boot_3dsx True ?la [''E:''] (Dir [])
      = (emit True (''Copying boot.3dsx...'', 80, ''info''), Inl (OSError ''FileNotFoundError''))"
    by (simp add: copy_boot_3dsx_def path_exists_def copy2_def write_file_def isdir_def)
  have linj: "snd (luma_inject True ?la [''E:''] (Dir []))
      = (Dir [], Inl (OSError ''FileNotFoundError''))"
    by (simp add: luma_inject_def s1 s2)
  have ltr: "snd (luma_try exact_rounding (Dir []) [''E:''] ?lf True)
      = (Dir [], Inl (OSError ''FileNotFoundError''))"
    using linj by (simp add: luma_try_def case_prod_beta)
  have lrun: "snd (download_and_inject_luma_update exact_rounding (Dir []) [''E:''] ?lf True)
       = (Dir [], False, ''An unexpected error during Luma3DS update: FileNotFoundError'')"
    using ltr by (simp add: download_and_inject_luma_update_def case_prod_beta)
  show ?thesis
    by (rule conjI [OF files conjI [OF pc conjI [OF ok conjI [OF absent lrun]]]])
qed

theorem dump_batch_witness:
  "makedirs [''home'', ''3DSE_Dumps'']
      (Dir [(''E:'', Dir [(''boot9strap'', Dir [(''firm0_enc.bak'', File ''A''),
                                                (''firm1_enc.bak'', File ''B'')])]),
            (''home'', Dir [])])
     = Inr (Dir [(''E:'', Dir [(''boot9strap'', Dir [(''firm0_enc.bak'', File ''A''),
                                                     (''firm1_enc.bak'', File ''B'')])]),
                 (''home'', Dir [(''3DSE_Dumps'', Dir [])])])
   \<and> dump_files_to_copy (\<lambda>k. k \<in> set [''firm0_enc.bak'', ''firm1_enc.bak'', ''boot9.bin''])
     = [([''boot9strap'', ''firm0_enc.bak''], ''firm0_enc.bak (Boot9Strap)''),
        ([''boot9strap'', ''firm1_enc.bak''], ''firm1_enc.bak (Boot9Strap)''),
        ([''3ds'', ''boot9.bin''], ''boot9.bin (3ds)'')]
   \<and> (\<exists>fs' s.
         run_dump_in_thread
           (Dir [(''E:'', Dir [(''boot9strap'', Dir [(''firm0_enc.bak'', File ''A''),
                                                     (''firm1_enc.bak'', File ''B'')])]),
                 (''home'', Dir [])])
           [''E:''] [''home'', ''3DSE_Dumps'']
           (dump_files_to_copy
              (\<lambda>k. k \<in> set [''firm0_enc.bak'', ''firm1_enc.bak'', ''boot9.bin'']))
           = (fs', Inr s)
         \<and> successful s = 2 \<and> total s = 3
         \<and> final_message s = ''2 of 3 files successfully dumped.''
         \<and> lookup [''home'', ''3DSE_Dumps'', ''firm0_enc.bak''] fs' = Some (File ''A'')
         \<and> lookup [''home'', ''3DSE_Dumps'', ''firm1_enc.bak''] fs' = Some (File ''B''))"
proof -
  let ?fs = "Dir [(''E:'', Dir [(''boot9strap'', Dir [(''firm0_enc.bak'', File ''A''),
                                                     (''firm1_enc.bak'', File ''B'')])]),
                 (''home'', Dir [])]"
  let ?made = "Dir [(''E:'', Dir [(''boot9strap'', Dir [(''firm0_enc.bak'', File ''A''),
                                                     (''firm1_enc.bak'', File ''B'')])]),
                 (''home'', Dir [(''3DSE_Dumps'', Dir [])])]"
  let ?checked = "\<lambda>k. k \<in> set [''firm0_enc.bak'', ''firm1_enc.bak'', ''boot9.bin'']"
  let ?files = "[([''boot9strap'', ''firm0_enc.bak''], ''firm0_enc.bak (Boot9Strap)''),
        ([''boot9strap'', ''firm1_enc.bak''], ''firm1_enc.bak (Boot9Strap)''),
        ([''3ds'', ''boot9.bin''], ''boot9.bin (3ds)'')]"
  have mk: "makedirs [''home'', ''3DSE_Dumps''] ?fs = Inr ?made" by simp
  have sel: "dump_files_to_copy ?checked = ?files"
    by (simp add: dump_files_to_copy_def dump_options_data_def)
  have hyp: "?files = dump_files_to_copy ?checked \<and> diverge [''E:''] [''home'', ''3DSE_Dumps'']
          \<and> (\<forall>f \<in> set ?files.
                (\<not> path_exists ([''E:''] @ fst f) ?fs \<or> isfile ([''E:''] @ fst f) ?fs)
                \<and> \<not> isdir ([''home'', ''3DSE_Dumps''] @ [basename (fst f)]) ?fs)"
    unfolding sel by (simp add: path_exists_def isfile_def isdir_def basename_def)
  have three: "length ?files = 3
       \<and> length (filter (\<lambda>f. \<not> path_exists ([''E:''] @ fst f) ?fs) ?files) = 1"
    by (simp add: path_exists_def)
  from dump_batch [OF mk, of "[''E:'']" ?files ?checked, THEN conjunct2, THEN mp, OF hyp]
  obtain fs' s where r: "run_dump_in_thread ?fs [''E:''] [''home'', ''3DSE_Dumps''] ?files = (fs', Inr s)"
    and at: "\<forall>f \<in> set ?files. isfile ([''E:''] @ fst f) ?fs \<longrightarrow>
                    lookup ([''home'', ''3DSE_Dumps''] @ [basename (fst f)]) fs'
                      = lookup ([''E:''] @ fst f) ?fs"
    and cnt: "length ?files = 3
                \<and> length (filter (\<lambda>f. \<not> path_exists ([''E:''] @ fst f) ?fs) ?files) = 1
              \<longrightarrow> successful s = 2 \<and> total s = 3
                  \<and> final_message s = ''2 of 3 files successfully dumped.''"
    by blast
  from cnt three have c: "successful s = 2 \<and> total s = 3
                  \<and> final_message s = ''2 of 3 files successfully dumped.''"
    by blast
  let ?f0 = "([''boot9strap'', ''firm0_enc.bak''], ''firm0_enc.bak (Boot9Strap)'')"
  let ?f1 = "([''boot9strap'', ''firm1_enc.bak''], ''firm1_enc.bak (Boot9Strap)'')"
  have p0: "[''home'', ''3DSE_Dumps''] @ [basename (fst ?f0)]
              = [''home'', ''3DSE_Dumps'', ''firm0_enc.bak'']"
    and p1: "[''home'', ''3DSE_Dumps''] @ [basename (fst ?f1)]
              = [''home'', ''3DSE_Dumps'', ''firm1_enc.bak'']"
    by (simp_all add: basename_def)
  have l0: "lookup ([''E:''] @ fst ?f0) ?fs = Some (File ''A'')"
    and l1: "lookup ([''E:''] @ fst ?f1) ?fs = Some (File ''B'')"
    by simp_all
  have i0: "isfile ([''E:''] @ fst ?f0) ?fs" and i1: "isfile ([''E:''] @ fst ?f1) ?fs"
    by (simp_all add: isfile_def)
  from at have "isfile ([''E:''] @ fst ?f0) ?fs \<longrightarrow>
                    lookup ([''home'', ''3DSE_Dumps''] @ [basename (fst ?f0)]) fs'
                      = lookup ([''E:''] @ fst ?f0) ?fs"
    by (rule bspec) simp
  from this i0 have "lookup ([''home'', ''3DSE_Dumps''] @ [basename (fst ?f0)]) fs'
                      = lookup ([''E:''] @ fst ?f0) ?fs"
    by (rule mp)
  then have a: "lookup [''home'', ''3DSE_Dumps'', ''firm0_enc.bak''] fs' = Some (File ''A'')"
    unfolding p0 l0 .
  from at have "isfile ([''E:''] @ fst ?f1) ?fs \<longrightarrow>
                    lookup ([''home'', ''3DSE_Dumps''] @ [basename (fst ?f1)]) fs'
                      = lookup ([''E:''] @ fst ?f1) ?fs"
    by (rule bspec) simp
  from this i1 have "lookup ([''home'', ''3DSE_Dumps''] @ [basename (fst ?f1)]) fs'
                      = lookup ([''E:''] @ fst ?f1) ?fs"
    by (rule mp)
  then have b: "lookup [''home'', ''3DSE_Dumps'', ''firm1_enc.bak''] fs' = Some (File ''B'')"
    unfolding p1 l1 .
  from r c a b have "\<exists>fs' s.
         run_dump_in_thread ?fs [''E:''] [''home'', ''3DSE_Dumps''] (dump_files_to_copy ?checked)
           = (fs', Inr s)
         \<and> successful s = 2 \<and> total s = 3
         \<and> final_message s = ''2 of 3 files successfully dumped.''
         \<and> lookup [''home'', ''3DSE_Dumps'', ''firm0_enc.bak''] fs' = Some (File ''A'')
         \<and> lookup [''home'', ''3DSE_Dumps'', ''firm1_enc.bak''] fs' = Some (File ''B'')"
    unfolding sel by blast
  with mk sel show ?thesis by blast
qed

text \<open>
  The claim C9 as it is written fails. With the folder \<open>boot9strap\<close> of the device chosen
  as destination, the two sources present are copied onto themselves, which raises, and
  the summary of the 3 files with 1 source missing reports 0 of 3. With a regular file
  where the destination folder should be, \<open>os.makedirs\<close> raises outside the \<open>try\<close> of
  \<open>dump_file\<close>: the exception ends the loop at the first file and there is no summary.
\<close>

theorem dump_batch_not_always_two_of_three:
  "dump_files_to_copy (\<lambda>k. k \<in> set [''firm0_enc.bak'', ''firm1_enc.bak'', ''boot9.bin''])
     = [([''boot9strap'', ''firm0_enc.bak''], ''firm0_enc.bak (Boot9Strap)''),
        ([''boot9strap'', ''firm1_enc.bak''], ''firm1_enc.bak (Boot9Strap)''),
        ([''3ds'', ''boot9.bin''], ''boot9.bin (3ds)'')]
   \<and> isfile [''E:'', ''boot9strap'', ''firm0_enc.bak'']
        (Dir [(''E:'', Dir [(''boot9strap'', Dir [(''firm0_enc.bak'', File ''A''),
                                                  (''firm1_enc.bak'', File ''B'')])])])
   \<and> isfile [''E:'', ''boot9strap'', ''firm1_enc.bak'']
        (Dir [(''E:'', Dir [(''boot9strap'', Dir [(''firm0_enc.bak'', File ''A''),
                                                  (''firm1_enc.bak'', File ''B'')])])])
   \<and> path_exists [''E:'', ''3ds'', ''boot9.bin'']
        (Dir [(''E:'', Dir [(''boot9strap'', Dir [(''firm0_enc.bak'', File ''A''),
                                                  (''firm1_enc.bak'', File ''B'')])])])
       = False
   \<and> map_sum id final_message
        (snd (run_dump_in_thread
           (Dir [(''E:'', Dir [(''boot9strap'', Dir [(''firm0_enc.bak'', File ''A''),
                                                     (''firm1_enc.bak'', File ''B'')])])])
           [''E:''] [''E:'', ''boot9strap'']
           [([''boot9strap'', ''firm0_enc.bak''], ''firm0_enc.bak (Boot9Strap)''),
            ([''boot9strap'', ''firm1_enc.bak''], ''firm1_enc.bak (Boot9Strap)''),
            ([''3ds'', ''boot9.bin''], ''boot9.bin (3ds)'')]))
       = Inr ''0 of 3 files successfully dumped.''
   \<and> run_dump_in_thread
        (Dir [(''E:'', Dir [(''boot9strap'', Dir [(''firm0_enc.bak'', File ''A''),
                                                  (''firm1_enc.bak'', File ''B'')])]),
              (''dumps'', File ''x'')])
        [''E:''] [''dumps'']
        [([''boot9strap'', ''firm0_enc.bak''], ''firm0_enc.bak (Boot9Strap)''),
         ([''boot9strap'', ''firm1_enc.bak''], ''firm1_enc.bak (Boot9Strap)''),
         ([''3ds'', ''boot9.bin''], ''boot9.bin (3ds)'')]
       = (Dir [(''E:'', Dir [(''boot9strap'', Dir [(''firm0_enc.bak'', File ''A''),
                                                   (''firm1_enc.bak'', File ''B'')])]),
               (''dumps'', File ''x'')],
          Inl (OSError ''FileExistsError''))"
proof -
  let ?dev = "Dir [(''E:'', Dir [(''boot9strap'', Dir [(''firm0_enc.bak'', File ''A''),
                                                  (''firm1_enc.bak'', File ''B'')])])]"
  let ?blocked = "Dir [(''E:'', Dir [(''boot9strap'', Dir [(''firm0_enc.bak'', File ''A''),
                                                  (''firm1_enc.bak'', File ''B'')])]),
              (''dumps'', File ''x'')]"
  let ?n0 = "''firm0_enc.bak (Boot9Strap)''"
  let ?n1 = "''firm1_enc.bak (Boot9Strap)''"
  let ?n2 = "''boot9.bin (3ds)''"
  have sel: "dump_files_to_copy (\<lambda>k. k \<in> set [''firm0_enc.bak'', ''firm1_enc.bak'', ''boot9.bin''])
     = [([''boot9strap'', ''firm0_enc.bak''], ?n0), ([''boot9strap'', ''firm1_enc.bak''], ?n1),
        ([''3ds'', ''boot9.bin''], ?n2)]"
    by (simp add: dump_files_to_copy_def dump_options_data_def)
  have i0: "isfile [''E:'', ''boot9strap'', ''firm0_enc.bak''] ?dev"
    and i1: "isfile [''E:'', ''boot9strap'', ''firm1_enc.bak''] ?dev"
    by (simp_all add: isfile_def)
  have i2: "path_exists [''E:'', ''3ds'', ''boot9.bin''] ?dev = False"
    by (simp add: path_exists_def)
  have mk: "makedirs [''E:'', ''boot9strap''] ?dev = Inr ?dev" by simp
  have d0: "dump_file False ?dev [''E:''] [''boot9strap'', ''firm0_enc.bak''] [''E:'', ''boot9strap'']
      = ([], ?dev, Inr (False, ''Error dumping '' @ quoted ''firm0_enc.bak'' @ '': ''
                               @ ''SameFileError''))"
    by (simp add: dump_file_def Let_def mk copy2_def basename_def join_name_def
        path_exists_def isdir_def emit_def)
  have d1: "dump_file False ?dev [''E:''] [''boot9strap'', ''firm1_enc.bak''] [''E:'', ''boot9strap'']
      = ([], ?dev, Inr (False, ''Error dumping '' @ quoted ''firm1_enc.bak'' @ '': ''
                               @ ''SameFileError''))"
    by (simp add: dump_file_def Let_def mk copy2_def basename_def join_name_def
        path_exists_def isdir_def emit_def)
  have d2: "dump_file False ?dev [''E:''] [''3ds'', ''boot9.bin''] [''E:'', ''boot9strap'']
      = ([], ?dev, Inr (False, ''Error: Source file ''
                               @ quoted (path_text ([''E:''] @ [''3ds'', ''boot9.bin'']))
                               @ '' not found.''))"
    by (rule dump_file_missing) (simp_all add: isdir_def path_exists_def)
  have loop: "fst (projr (snd (dump_loop ?dev [''E:''] [''E:'', ''boot9strap'']
      [([''boot9strap'', ''firm0_enc.bak''], ?n0), ([''boot9strap'', ''firm1_enc.bak''], ?n1),
        ([''3ds'', ''boot9.bin''], ?n2)] 0 []))) = 0
      \<and> \<not> isl (snd (dump_loop ?dev [''E:''] [''E:'', ''boot9strap'']
      [([''boot9strap'', ''firm0_enc.bak''], ?n0), ([''boot9strap'', ''firm1_enc.bak''], ?n1),
        ([''3ds'', ''boot9.bin''], ?n2)] 0 []))"
    by (simp add: d0 d1 d2)
  have three: "str_nat (Suc (Suc (Suc 0))) = ''3''"
    using str_nat_3 by (simp add: numeral_3_eq_3)
  have summary: "map_sum id final_message
        (snd (run_dump_in_thread ?dev [''E:''] [''E:'', ''boot9strap'']
           [([''boot9strap'', ''firm0_enc.bak''], ?n0), ([''boot9strap'', ''firm1_enc.bak''], ?n1),
            ([''3ds'', ''boot9.bin''], ?n2)]))
       = Inr ''0 of 3 files successfully dumped.''"
    using loop
    by (auto simp: run_dump_in_thread_def Let_def str_nat_0 str_nat_3 three
        split: prod.splits sum.splits)
  have b0: "dump_file False ?blocked [''E:''] [''boot9strap'', ''firm0_enc.bak''] [''dumps'']
      = ([], ?blocked, Inl (OSError ''FileExistsError''))"
    by (simp add: dump_file_def Let_def)
  have stopped: "run_dump_in_thread ?blocked [''E:''] [''dumps'']
        [([''boot9strap'', ''firm0_enc.bak''], ?n0), ([''boot9strap'', ''firm1_enc.bak''], ?n1),
         ([''3ds'', ''boot9.bin''], ?n2)]
       = (?blocked, Inl (OSError ''FileExistsError''))"
    by (simp add: run_dump_in_thread_def Let_def b0)
  show ?thesis
    by (rule conjI [OF sel conjI [OF i0 conjI [OF i1 conjI [OF i2 conjI [OF summary stopped]]]]])
qed


end
